theory Spec2Isabelle
  imports Main "HOL-Library.Word" "HOL-Library.Monad_Syntax"
begin

unbundle bit_operations_syntax

section \<open>Machine types and memory\<close>

text \<open>
  The C types of \<^verbatim>\<open>bitset.c\<close> on an LP64 target: \<^verbatim>\<open>unsigned char\<close> is 8 bits,
  \<^verbatim>\<open>int\<close> and \<^verbatim>\<open>unsigned int\<close> are 32 bits, \<^verbatim>\<open>size_t\<close> and \<^verbatim>\<open>intmax_t\<close> are 64 bits.
  A 32-bit word stands for both \<^verbatim>\<open>int\<close> (two's complement) and \<^verbatim>\<open>unsigned int\<close>: the
  operators the code applies to them (\<^verbatim>\<open>~ & | ^ <<\<close>, unary minus) act on the bit
  pattern alike, and every \<^verbatim>\<open>>>\<close> of the code has a non-negative or unsigned left operand.
\<close>

type_synonym byte = "8 word"
type_synonym cint = "32 word"
type_synonym size_t = "64 word"

text \<open>Integer promotion of an \<^verbatim>\<open>unsigned char\<close> and the conversion back on assignment.\<close>

definition to_int :: "byte \<Rightarrow> cint" where
  "to_int b = ucast b"

definition to_uchar :: "cint \<Rightarrow> byte" where
  "to_uchar w = ucast w"

text \<open>
  \<^verbatim>\<open>struct bitset\<close>. The \<^verbatim>\<open>data\<close> pointer is \<open>None\<close> for \<^verbatim>\<open>NULL\<close>, else the bytes of the
  block it points to; the block is owned by the bitset alone. The field \<^verbatim>\<open>size\<close> is
  called \<open>size_bits\<close> here.
\<close>

record bitset =
  data :: "byte list option"
  capacity :: size_t
  size_bits :: size_t

text \<open>
  A pointer into a block is the byte offset from the block's start. Reading or writing
  outside the block is undefined behaviour in C; here it is the result \<open>None\<close>.
  \<open>update_byte\<close> is a compound assignment \<^verbatim>\<open>*p op= e\<close>.
\<close>

definition load :: "byte list \<Rightarrow> nat \<Rightarrow> byte option" where
  "load bs p = (if p < length bs then Some (bs ! p) else None)"

definition update_byte :: "byte list \<Rightarrow> nat \<Rightarrow> (byte \<Rightarrow> byte) \<Rightarrow> byte list option" where
  "update_byte bs p f = (if p < length bs then Some (bs[p := f (bs ! p)]) else None)"

text \<open>
  \<^verbatim>\<open>E1 << E2\<close> on a 32-bit operand with a \<^verbatim>\<open>size_t\<close> count: undefined when the count is
  32 or more, else the bit pattern moved left (as gcc and clang define it for negative
  \<^verbatim>\<open>int\<close> too).
\<close>

definition shl :: "cint \<Rightarrow> size_t \<Rightarrow> cint option" where
  "shl w n = (if unat n < 32 then Some (push_bit (unat n) w) else None)"

section \<open>Single-bit access\<close>

text \<open>\<^verbatim>\<open>bitset_byte_at\<close>: the offset of the byte that holds bit \<open>index\<close>.\<close>

definition bitset_byte_at :: "size_t \<Rightarrow> nat" where
  "bitset_byte_at index = unat (index div 8)"

text \<open>\<^verbatim>\<open>1 << (index & 0x7)\<close>, an \<^verbatim>\<open>int\<close>.\<close>

definition bit_mask :: "size_t \<Rightarrow> cint" where
  "bit_mask index = push_bit (unat (index AND 7)) 1"

text \<open>\<^verbatim>\<open>-!!state\<close>: all ones when \<open>state\<close> is non-zero, else zero.\<close>

definition neg_bool :: "cint \<Rightarrow> cint" where
  "neg_bool state = - (if state \<noteq> 0 then 1 else 0)"

definition bitset_set :: "bitset \<Rightarrow> size_t \<Rightarrow> cint \<Rightarrow> bitset option" where
  "bitset_set s index state =
     (case data s of
        None \<Rightarrow> None
      | Some bs \<Rightarrow>
          map_option (\<lambda>bs'. s\<lparr>data := Some bs'\<rparr>)
            (update_byte bs (bitset_byte_at index)
               (\<lambda>b. to_uchar (to_int b XOR ((neg_bool state XOR to_int b) AND bit_mask index)))))"

definition bitset_get :: "bitset \<Rightarrow> size_t \<Rightarrow> cint option" where
  "bitset_get s index =
     (case data s of
        None \<Rightarrow> None
      | Some bs \<Rightarrow>
          map_option (\<lambda>b. to_int b AND bit_mask index) (load bs (bitset_byte_at index)))"

section \<open>Bits of a buffer\<close>

text \<open>Bit \<open>i\<close> of a byte sequence lives in byte \<open>i div 8\<close> at position \<open>i mod 8\<close>.\<close>

definition bit_at :: "byte list \<Rightarrow> nat \<Rightarrow> bool" where
  "bit_at bs i = bit (bs ! (i div 8)) (i mod 8)"

section \<open>The allocator\<close>

text \<open>
  \<^verbatim>\<open>malloc\<close>, \<^verbatim>\<open>calloc\<close> and \<^verbatim>\<open>realloc\<close> belong to the C library. Their behaviour is a
  parameter: \<open>grants h n\<close> says whether a request for \<open>n\<close> bytes succeeds, and
  \<open>junk h i\<close> is the indeterminate content of byte \<open>i\<close> of a block that is handed out
  uninitialised. \<^verbatim>\<open>realloc\<close> keeps the bytes of the old block up to the smaller of the
  two lengths; on failure it returns \<^verbatim>\<open>NULL\<close> and leaves the old block alone.
\<close>

record heap =
  grants :: "nat \<Rightarrow> bool"
  junk :: "nat \<Rightarrow> byte"

definition malloc_m :: "heap \<Rightarrow> nat \<Rightarrow> byte list option" where
  "malloc_m h n = (if grants h n then Some (map (junk h) [0..<n]) else None)"

definition calloc_m :: "heap \<Rightarrow> nat \<Rightarrow> nat \<Rightarrow> byte list option" where
  "calloc_m h n sz = (if grants h (n * sz) then Some (replicate (n * sz) 0) else None)"

definition realloc_m :: "heap \<Rightarrow> byte list option \<Rightarrow> nat \<Rightarrow> byte list option" where
  "realloc_m h p n =
     (let old = (case p of None \<Rightarrow> [] | Some bs \<Rightarrow> bs) in
      if grants h n then Some (take n old @ map (junk h) [length old..<n]) else None)"

text \<open>\<^verbatim>\<open>memset(p, c, n)\<close> on the block \<open>bs\<close>, \<open>p\<close> an offset into it.\<close>

definition memset :: "byte list \<Rightarrow> nat \<Rightarrow> byte \<Rightarrow> nat \<Rightarrow> byte list option" where
  "memset bs p c n =
     (if p + n \<le> length bs then Some (take p bs @ replicate n c @ drop (p + n) bs) else None)"

section \<open>The macros of internal.c\<close>

definition bitset_internal_bytes :: "size_t \<Rightarrow> size_t" where
  "bitset_internal_bytes bits = drop_bit 3 (bits - 1) + 1"

definition bitset_internal_capacity :: "size_t \<Rightarrow> size_t" where
  "bitset_internal_capacity bytes = push_bit 3 bytes"

definition bitset_internal_alloc :: "heap \<Rightarrow> cint \<Rightarrow> size_t \<Rightarrow> size_t \<Rightarrow> byte list option" where
  "bitset_internal_alloc h clear num sz =
     (if clear \<noteq> 0 then calloc_m h (unat num) (unat sz) else malloc_m h (unat (num * sz)))"

section \<open>Construction\<close>

text \<open>\<^verbatim>\<open>sizeof(struct bitset)\<close>: a pointer and two \<^verbatim>\<open>size_t\<close>.\<close>

definition sizeof_bitset :: nat where
  "sizeof_bitset = 24"

text \<open>
  \<^verbatim>\<open>bitset_new\<close>: a zeroed struct, so a \<^verbatim>\<open>NULL\<close> buffer and both counts 0; \<open>None\<close> is the
  \<^verbatim>\<open>NULL\<close> the function returns when the allocation fails.
\<close>

definition bitset_new :: "heap \<Rightarrow> bitset option" where
  "bitset_new h =
     (if grants h sizeof_bitset then Some \<lparr>data = None, capacity = 0, size_bits = 0\<rparr> else None)"

definition bitset_malloc :: "heap \<Rightarrow> size_t \<Rightarrow> cint \<Rightarrow> bitset option" where
  "bitset_malloc h num clear =
     (if \<not> grants h sizeof_bitset then None
      else
        let bytes = bitset_internal_bytes num in
        case bitset_internal_alloc h clear bytes 1 of
          None \<Rightarrow> None
        | Some d \<Rightarrow>
            Some \<lparr>data = Some d, capacity = bitset_internal_capacity bytes, size_bits = num\<rparr>)"

section \<open>Ranged clear\<close>

text \<open>
  \<^verbatim>\<open>bitset_rclear\<close>, with the parameters \<^verbatim>\<open>begin\<close> and \<^verbatim>\<open>end\<close> called \<open>begin_idx\<close> and
  \<open>end_idx\<close>. The result is the updated bitset and the returned count. The same-byte
  branch shifts by \<^verbatim>\<open>end - begin\<close> and by \<^verbatim>\<open>begin\<close>, both \<^verbatim>\<open>size_t\<close> (\<open>shl\<close>). When the
  two pointers differ, \<^verbatim>\<open>end_ptr - first\<close> is converted to \<^verbatim>\<open>size_t\<close>: a negative
  difference would make \<^verbatim>\<open>memset\<close> run over the whole address space, which is \<open>None\<close>;
  the last statement, on \<^verbatim>\<open>*end_ptr\<close>, runs whatever \<^verbatim>\<open>end_shift\<close> is.
\<close>

definition bitset_rclear :: "bitset \<Rightarrow> size_t \<Rightarrow> size_t \<Rightarrow> (bitset \<times> size_t) option" where
  "bitset_rclear s begin_idx end_idx =
     (case data s of
        None \<Rightarrow> None
      | Some bs \<Rightarrow>
          let begin_shift = (ucast (begin_idx AND 7) :: cint);
              end_shift = (ucast (end_idx AND 7) :: cint);
              begin_ptr = bitset_byte_at begin_idx;
              end_ptr = bitset_byte_at end_idx
          in
          map_option (\<lambda>bs'. (s\<lparr>data := Some bs'\<rparr>, end_idx - begin_idx))
            (if begin_ptr = end_ptr then
               do {
                 a \<leftarrow> shl (NOT 0) (end_idx - begin_idx);
                 m \<leftarrow> shl (NOT a) begin_idx;
                 update_byte bs begin_ptr (\<lambda>b. to_uchar (to_int b AND NOT m))
               }
             else
               let first = begin_ptr + (if begin_shift \<noteq> 0 then 1 else 0) in
               if end_ptr < first then None
               else
                 do {
                   bs1 \<leftarrow> (if end_ptr - first \<noteq> 0 then memset bs first 0 (end_ptr - first)
                          else Some bs);
                   bs2 \<leftarrow> (if begin_shift \<noteq> 0
                          then update_byte bs1 begin_ptr
                                 (\<lambda>b. to_uchar (to_int b AND NOT (push_bit (unat begin_shift) (NOT 0))))
                          else Some bs1);
                   update_byte bs2 end_ptr
                     (\<lambda>b. to_uchar (to_int b AND push_bit (unat end_shift) (NOT 0)))
                 }))"

section \<open>Resize\<close>

text \<open>
  \<^verbatim>\<open>bitset_resize\<close>. The result is the bitset after the call and the returned
  \<^verbatim>\<open>intmax_t\<close> (read it with \<open>sint\<close>). The result of \<^verbatim>\<open>realloc\<close> is stored into
  \<^verbatim>\<open>set->data\<close> before it is tested.
\<close>

definition bitset_resize :: "heap \<Rightarrow> bitset \<Rightarrow> size_t \<Rightarrow> bitset \<times> size_t" where
  "bitset_resize h s sz =
     (let diff = size_bits s - sz;
          bytes = bitset_internal_bytes sz
      in
      case realloc_m h (data s) (unat bytes) of
        None \<Rightarrow> (s\<lparr>data := None\<rparr>, 0)
      | Some d \<Rightarrow>
          (s\<lparr>data := Some d, capacity := bitset_internal_capacity bytes, size_bits := sz\<rparr>, diff))"

definition bitset_cresize :: "heap \<Rightarrow> bitset \<Rightarrow> size_t \<Rightarrow> (bitset \<times> size_t) option" where
  "bitset_cresize h s sz =
     (let old_size = size_bits s;
          (s1, diff) = bitset_resize h s sz
      in
      if sz > old_size
      then map_option (\<lambda>(s2, n). (s2, diff)) (bitset_rclear s1 old_size (size_bits s1))
      else Some (s1, diff))"

section \<open>Bulk write and read\<close>

text \<open>
  The external sequence \<open>seq\<close> is a block of its own, apart from the bitset's buffer.
  The loops keep \<^verbatim>\<open>entry\<close> and \<^verbatim>\<open>seq\<close> as offsets (\<open>entry\<close>, \<open>k\<close>) into the two blocks
  and count \<^verbatim>\<open>size\<close> down by 8 while \<^verbatim>\<open>size >> 3\<close> is non-zero. The shift counts
  \<open>shift\<close>, \<open>8 - shift\<close>, \<open>sz\<close> and \<open>8 - sz\<close> are below 32 wherever they are used:
  \<open>shift\<close> is \<^verbatim>\<open>index & 0x7\<close> and the tail runs with \<open>sz\<close> from 1 to 7. The variable
  \<^verbatim>\<open>mask\<close> is called \<open>msk\<close>, and \<^verbatim>\<open>end\<close> in the tail \<open>end_pos\<close>.
\<close>

text \<open>The loop test \<^verbatim>\<open>size >> 3\<close> and the step \<^verbatim>\<open>size -= 8\<close>, read as naturals.\<close>

lemma unat_drop_bit3: "unat (drop_bit 3 (sz :: size_t)) = unat sz div 8"
proof -
  have "unat (drop_bit 3 sz) = drop_bit 3 (unat sz)" by (rule unat_drop_bit_eq)
  also have "\<dots> = unat sz div 8" by (simp add: drop_bit_eq_div)
  finally show ?thesis .
qed

lemma drop_bit3_eq_0: "drop_bit 3 (sz :: size_t) = 0 \<longleftrightarrow> unat sz < 8"
proof -
  have "drop_bit 3 sz = 0 \<longleftrightarrow> unat (drop_bit 3 sz) = 0" by (simp add: unat_eq_zero)
  also have "\<dots> \<longleftrightarrow> unat sz < 8" by (simp add: unat_drop_bit3 div_eq_0_iff)
  finally show ?thesis .
qed

lemma unat_sub8: "8 \<le> unat (sz :: size_t) \<Longrightarrow> unat (sz - 8) = unat sz - 8"
  by (simp add: unat_sub word_le_nat_alt)

text \<open>One pass of the loop body of \<^verbatim>\<open>bitset_write\<close>, without the increments.\<close>

definition write_step ::
  "cint \<Rightarrow> cint \<Rightarrow> byte list \<Rightarrow> byte list \<Rightarrow> nat \<Rightarrow> nat \<Rightarrow> byte list option" where
  "write_step shift msk seq bs entry k =
     do {
       bs \<leftarrow> update_byte bs entry (\<lambda>b. to_uchar (to_int b AND NOT msk));
       v \<leftarrow> load seq k;
       bs \<leftarrow> update_byte bs entry (\<lambda>b. to_uchar (to_int b OR push_bit (unat shift) (to_int v)));
       if shift \<noteq> 0
       then do {
         bs \<leftarrow> update_byte bs (entry + 1) (\<lambda>b. to_uchar (to_int b AND msk));
         v \<leftarrow> load seq k;
         update_byte bs (entry + 1)
           (\<lambda>b. to_uchar (to_int b OR (drop_bit (unat (8 - shift)) (to_int v) AND NOT msk)))
       }
       else Some bs
     }"

function write_loop ::
  "cint \<Rightarrow> cint \<Rightarrow> byte list \<Rightarrow> byte list \<Rightarrow> nat \<Rightarrow> nat \<Rightarrow> size_t
     \<Rightarrow> (byte list \<times> nat \<times> nat \<times> size_t) option" where
  "write_loop shift msk seq bs entry k sz =
     (if drop_bit 3 sz = 0 then Some (bs, entry, k, sz)
      else
        do {
          bs \<leftarrow> write_step shift msk seq bs entry k;
          write_loop shift msk seq bs (entry + 1) (k + 1) (sz - 8)
        })"
  by pat_completeness auto
termination
proof (relation "measure (\<lambda>(shift, msk, seq, bs, entry, k, sz). unat sz)")
  show "wf (measure (\<lambda>(shift, msk, seq, bs, entry, k, sz). unat sz))" by simp
next
  fix shift msk :: cint and seq bs bs' :: "byte list" and entry k :: nat and sz :: size_t
  assume "drop_bit 3 sz \<noteq> 0"
  then have "8 \<le> unat sz" by (simp add: drop_bit3_eq_0)
  then show "((shift, msk, seq, bs', entry + 1, k + 1, sz - 8), (shift, msk, seq, bs, entry, k, sz))
      \<in> measure (\<lambda>(shift, msk, seq, bs, entry, k, sz). unat sz)"
    by (simp add: unat_sub8)
qed

text \<open>The part after the loop: the last \<open>sz\<close> bits, \<open>sz\<close> below 8.\<close>

definition write_tail ::
  "cint \<Rightarrow> cint \<Rightarrow> byte list \<Rightarrow> byte list \<Rightarrow> nat \<Rightarrow> nat \<Rightarrow> size_t \<Rightarrow> byte list option" where
  "write_tail shift msk0 seq bs entry k sz =
     (if sz = 0 then Some bs
      else
        let end_pos = (ucast (ucast shift + sz) :: cint);
            msk = (if end_pos < 8
                   then push_bit (unat shift) (NOT (push_bit (unat sz) (NOT 0)))
                   else msk0)
        in
        do {
          bs \<leftarrow> update_byte bs entry (\<lambda>b. to_uchar (to_int b AND NOT msk));
          v \<leftarrow> load seq k;
          bs \<leftarrow> update_byte bs entry
                 (\<lambda>b. to_uchar (to_int b OR (push_bit (unat shift) (to_int v) AND msk)));
          if end_pos > 8
          then
            let msk = drop_bit (unat (8 - sz)) msk in
            do {
              bs \<leftarrow> update_byte bs (entry + 1) (\<lambda>b. to_uchar (to_int b AND msk));
              v \<leftarrow> load seq k;
              update_byte bs (entry + 1)
                (\<lambda>b. to_uchar (to_int b OR (drop_bit (unat (8 - shift)) (to_int v) AND NOT msk)))
            }
          else Some bs
        })"

text \<open>
  \<^verbatim>\<open>bitset_write\<close>: the bitset after the call and the returned count. \<open>seq\<close> is only read.
\<close>

definition bitset_write ::
  "bitset \<Rightarrow> size_t \<Rightarrow> byte list \<Rightarrow> size_t \<Rightarrow> (bitset \<times> size_t) option" where
  "bitset_write s index seq sz =
     (case data s of
        None \<Rightarrow> None
      | Some bs \<Rightarrow>
          let tmp = sz;
              shift = (ucast (index AND 7) :: cint);
              msk = (push_bit (unat shift) (NOT 0) :: cint);
              entry = bitset_byte_at index
          in
          do {
            (bs1, entry1, k1, sz1) \<leftarrow> write_loop shift msk seq bs entry 0 sz;
            bs2 \<leftarrow> write_tail shift msk seq bs1 entry1 k1 sz1;
            Some (s\<lparr>data := Some bs2\<rparr>, tmp)
          })"

text \<open>One pass of the loop body of \<^verbatim>\<open>bitset_read\<close>: \<open>seq\<close> is the destination.\<close>

definition read_step ::
  "cint \<Rightarrow> cint \<Rightarrow> byte list \<Rightarrow> byte list \<Rightarrow> nat \<Rightarrow> nat \<Rightarrow> byte list option" where
  "read_step shift msk bs seq entry k =
     do {
       b \<leftarrow> load bs entry;
       seq \<leftarrow> update_byte seq k
               (\<lambda>d. to_uchar (to_int d OR drop_bit (unat shift) (to_int b AND msk)));
       if shift \<noteq> 0
       then do {
         b' \<leftarrow> load bs (entry + 1);
         update_byte seq k
           (\<lambda>d. to_uchar (to_int d OR push_bit (unat (8 - shift)) (to_int b' AND NOT msk)))
       }
       else Some seq
     }"

function read_loop ::
  "cint \<Rightarrow> cint \<Rightarrow> byte list \<Rightarrow> byte list \<Rightarrow> nat \<Rightarrow> nat \<Rightarrow> size_t
     \<Rightarrow> (byte list \<times> nat \<times> nat \<times> size_t) option" where
  "read_loop shift msk bs seq entry k sz =
     (if drop_bit 3 sz = 0 then Some (seq, entry, k, sz)
      else
        do {
          seq \<leftarrow> read_step shift msk bs seq entry k;
          read_loop shift msk bs seq (entry + 1) (k + 1) (sz - 8)
        })"
  by pat_completeness auto
termination
proof (relation "measure (\<lambda>(shift, msk, bs, seq, entry, k, sz). unat sz)")
  show "wf (measure (\<lambda>(shift, msk, bs, seq, entry, k, sz). unat sz))" by simp
next
  fix shift msk :: cint and seq bs seq' :: "byte list" and entry k :: nat and sz :: size_t
  assume "drop_bit 3 sz \<noteq> 0"
  then have "8 \<le> unat sz" by (simp add: drop_bit3_eq_0)
  then show "((shift, msk, bs, seq', entry + 1, k + 1, sz - 8), (shift, msk, bs, seq, entry, k, sz))
      \<in> measure (\<lambda>(shift, msk, bs, seq, entry, k, sz). unat sz)"
    by (simp add: unat_sub8)
qed

text \<open>The loop equations are unfolded by hand in the proofs below.\<close>

declare write_loop.simps [simp del]
declare read_loop.simps [simp del]

definition read_tail ::
  "cint \<Rightarrow> cint \<Rightarrow> byte list \<Rightarrow> byte list \<Rightarrow> nat \<Rightarrow> nat \<Rightarrow> size_t \<Rightarrow> byte list option" where
  "read_tail shift msk0 bs seq entry k sz =
     (if sz = 0 then Some seq
      else
        let end_pos = (ucast (ucast shift + sz) :: cint);
            msk = (if end_pos < 8
                   then push_bit (unat shift) (NOT (push_bit (unat sz) (NOT 0)))
                   else msk0)
        in
        do {
          b \<leftarrow> load bs entry;
          seq \<leftarrow> update_byte seq k
                  (\<lambda>d. to_uchar (to_int d OR drop_bit (unat shift) (to_int b AND msk)));
          if end_pos > 8
          then
            let msk = drop_bit (unat (8 - sz)) msk in
            do {
              b' \<leftarrow> load bs (entry + 1);
              update_byte seq k
                (\<lambda>d. to_uchar (to_int d OR push_bit (unat (8 - shift)) (to_int b' AND NOT msk)))
            }
          else Some seq
        })"

text \<open>
  \<^verbatim>\<open>bitset_read\<close>: the destination after the call and the returned count. The bitset is
  only read.
\<close>

definition bitset_read ::
  "bitset \<Rightarrow> size_t \<Rightarrow> byte list \<Rightarrow> size_t \<Rightarrow> (byte list \<times> size_t) option" where
  "bitset_read s index seq sz =
     (case data s of
        None \<Rightarrow> None
      | Some bs \<Rightarrow>
          let tmp = sz;
              shift = (ucast (index AND 7) :: cint);
              msk = (push_bit (unat shift) (NOT 0) :: cint);
              entry = bitset_byte_at index
          in
          do {
            (seq1, entry1, k1, sz1) \<leftarrow> read_loop shift msk bs seq entry 0 sz;
            seq2 \<leftarrow> read_tail shift msk bs seq1 entry1 k1 sz1;
            Some (seq2, tmp)
          })"

section \<open>Well-formed bitsets and example values\<close>

text \<open>
  A bitset is well formed with buffer \<open>bs\<close> when \<^verbatim>\<open>data\<close> points to \<open>bs\<close> and \<open>capacity\<close>
  is eight times the number of bytes of \<open>bs\<close>.
\<close>

definition wf_bitset :: "bitset \<Rightarrow> byte list \<Rightarrow> bool" where
  "wf_bitset s bs \<longleftrightarrow> data s = Some bs \<and> 8 * length bs = unat (capacity s)"

definition demo_bytes :: "byte list" where
  "demo_bytes = [0x5A, 0xC3]"

definition demo_set :: bitset where
  "demo_set = \<lparr>data = Some demo_bytes, capacity = 16, size_bits = 16\<rparr>"

definition demo_seq :: "byte list" where
  "demo_seq = [0xB3, 0x0F]"

definition demo_set3 :: bitset where
  "demo_set3 = \<lparr>data = Some [0x5A, 0xC3, 0x3C], capacity = 24, size_bits = 24\<rparr>"

definition demo_seq3 :: "byte list" where
  "demo_seq3 = [0xB3, 0x0F, 0x05]"

text \<open>
  The bits \<open>[index, index + count)\<close> of a buffer packed into bytes, as \<^verbatim>\<open>bitset_read\<close> is
  meant to deliver them: bit \<open>t\<close> of byte \<open>k\<close> is bit \<open>index + 8k + t\<close> of the buffer when
  \<open>8k + t < count\<close>, and 0 otherwise.
\<close>

definition extracted :: "byte list \<Rightarrow> nat \<Rightarrow> nat \<Rightarrow> nat \<Rightarrow> byte" where
  "extracted bs index count k =
     horner_sum of_bool 2
       (map (\<lambda>t. 8 * k + t < count \<and> bit_at bs (index + (8 * k + t))) [0..<8])"

text \<open>
  Three allocators: one that grants every request, one that refuses every request, and
  one that grants what fits a 47-bit address space.
\<close>

definition heap_ok :: heap where
  "heap_ok = \<lparr>grants = (\<lambda>n. True), junk = (\<lambda>i. 0xAA)\<rparr>"

definition heap_fail :: heap where
  "heap_fail = \<lparr>grants = (\<lambda>n. False), junk = (\<lambda>i. 0xAA)\<rparr>"

definition heap_47 :: heap where
  "heap_47 = \<lparr>grants = (\<lambda>n. n < 2 ^ 47), junk = (\<lambda>i. 0xAA)\<rparr>"

text \<open>
  The number of bytes of the backing buffer (none for a \<^verbatim>\<open>NULL\<close> pointer), and the
  relation between size, capacity and buffer that the allocation macros are meant to
  keep: capacity is \<open>8 * ceil(size / 8)\<close>, read without wrap-around, and the buffer holds
  \<open>ceil(size / 8)\<close> bytes.
\<close>

definition buffer_bytes :: "bitset \<Rightarrow> nat" where
  "buffer_bytes s = (case data s of None \<Rightarrow> 0 | Some d \<Rightarrow> length d)"

definition cap_invariant :: "bitset \<Rightarrow> bool" where
  "cap_invariant s \<longleftrightarrow>
     unat (capacity s) = 8 * ((unat (size_bits s) + 7) div 8)
     \<and> buffer_bytes s = (unat (size_bits s) + 7) div 8"

section \<open>Bytes, bits and word arithmetic\<close>

lemma bit8_lt: "bit (b :: byte) n \<Longrightarrow> n < 8"
  using bit_imp_le_length [of b n] by simp

lemma bit_at_update:
  "p < length bs \<Longrightarrow> bit_at (bs[p := v]) i = (if i div 8 = p then bit v (i mod 8) else bit_at bs i)"
  by (simp add: bit_at_def)

lemma bit_at_eqI:
  assumes len: "length xs = length ys"
    and bits: "\<And>i. i < 8 * length xs \<Longrightarrow> bit_at xs i = bit_at ys i"
  shows "xs = ys"
proof (rule nth_equalityI [OF len])
  fix p assume p: "p < length xs"
  show "xs ! p = ys ! p"
  proof (rule bit_word_eqI)
    fix n assume "n < LENGTH(8)"
    then have n: "n < 8" by simp
    with p have "8 * p + n < 8 * length xs" by simp
    from bits [OF this] n show "bit (xs ! p) n = bit (ys ! p) n"
      by (simp add: bit_at_def)
  qed
qed

lemma unat_and7: "unat ((w :: size_t) AND 7) = unat w mod 8"
proof -
  have "w AND 7 = take_bit 3 w"
    by (simp add: take_bit_eq_mask mask_eq_exp_minus_1)
  then show ?thesis by (simp add: unsigned_take_bit_eq take_bit_eq_mod unat_mod)
qed

lemma unat_div8: "unat ((w :: size_t) div 8) = unat w div 8"
  by (simp add: unat_div)

lemma byte_at_nat: "bitset_byte_at index = unat index div 8"
  by (simp add: bitset_byte_at_def unat_div8)

lemma div_mod_8_eq: "(i :: nat) div 8 = j div 8 \<Longrightarrow> i mod 8 = j mod 8 \<Longrightarrow> i = j"
  by (metis div_mult_mod_eq)

lemma ceil8_gt:
  assumes "(j :: nat) < n" shows "j div 8 < (n + 7) div 8"
proof -
  from assms have "j + 8 \<le> n + 7" by simp
  then have "(j + 8) div 8 \<le> (n + 7) div 8" by (rule div_le_mono)
  then show ?thesis by simp
qed

lemma ceil8_le:
  assumes "((n :: nat) + 7) div 8 \<le> k" shows "n \<le> 8 * k"
proof (rule ccontr)
  assume "\<not> n \<le> 8 * k"
  then have "8 * k < n" by simp
  from ceil8_gt [OF this] assms show False by simp
qed

section \<open>Set and get\<close>

lemma set_byte_bit:
  "r < 8 \<Longrightarrow> bit (to_uchar (to_int b XOR ((neg_bool st XOR to_int b) AND push_bit r 1))) n
     = (if n = r then st \<noteq> 0 else bit b n)"
  by (auto simp: to_uchar_def to_int_def neg_bool_def bit_simps dest: bit8_lt)

lemma get_byte_nonzero:
  "r < 8 \<Longrightarrow> (to_int b AND push_bit r 1 \<noteq> 0) = bit b r"
proof -
  assume "r < 8"
  have "(to_int b AND push_bit r 1 \<noteq> 0) = bit (to_int b) r"
    by (rule bit_iff_and_push_bit_not_eq_0 [symmetric])
  also have "\<dots> = bit b r" using \<open>r < 8\<close> by (simp add: to_int_def bit_simps)
  finally show ?thesis .
qed

text \<open>
  C8: for a well-formed bitset and \<open>index < capacity\<close>, \<^verbatim>\<open>bitset_set\<close> succeeds and changes
  the buffer only; a following \<^verbatim>\<open>bitset_get\<close> at \<open>index\<close> returns a non-zero value
  (C's true) exactly when the state \<open>v\<close> passed to \<^verbatim>\<open>bitset_set\<close> is non-zero; every
  other bit of the buffer has the value it had before.
\<close>

theorem bitset_set_get:
  assumes wf: "wf_bitset s bs" and idx: "index < capacity s"
  shows "\<exists>bs'. bitset_set s index v = Some (s\<lparr>data := Some bs'\<rparr>)
           \<and> length bs' = length bs
           \<and> (\<exists>g. bitset_get (s\<lparr>data := Some bs'\<rparr>) index = Some g \<and> (g \<noteq> 0 \<longleftrightarrow> v \<noteq> 0))
           \<and> (\<forall>i < 8 * length bs. i \<noteq> unat index \<longrightarrow> bit_at bs' i = bit_at bs i)"
proof -
  let ?p = "unat index div 8" and ?r = "unat index mod 8"
  let ?f = "\<lambda>b. to_uchar (to_int b XOR ((neg_bool v XOR to_int b) AND bit_mask index))"
  let ?bs' = "bs[?p := ?f (bs ! ?p)]"
  from wf have d: "data s = Some bs" and cap: "8 * length bs = unat (capacity s)"
    by (simp_all add: wf_bitset_def)
  from idx cap have p: "?p < length bs" by (simp add: word_less_nat_alt)
  have r: "?r < 8" by simp
  have m: "bit_mask index = push_bit ?r 1" by (simp add: bit_mask_def unat_and7)
  have s1: "bitset_set s index v = Some (s\<lparr>data := Some ?bs'\<rparr>)"
    using d p by (simp add: bitset_set_def update_byte_def byte_at_nat)
  have new: "bit (?f b) n = (if n = ?r then v \<noteq> 0 else bit b n)" for b n
    unfolding m by (rule set_byte_bit [OF r])
  have g: "bitset_get (s\<lparr>data := Some ?bs'\<rparr>) index = Some (to_int (?f (bs ! ?p)) AND bit_mask index)"
    using p by (simp add: bitset_get_def load_def byte_at_nat)
  have "(to_int (?f (bs ! ?p)) AND push_bit ?r 1 \<noteq> 0) = bit (?f (bs ! ?p)) ?r"
    by (rule get_byte_nonzero [OF r])
  also have "\<dots> = (v \<noteq> 0)" by (subst new) simp
  finally have gv: "(to_int (?f (bs ! ?p)) AND bit_mask index \<noteq> 0) = (v \<noteq> 0)"
    by (simp only: m)
  have frame: "bit_at ?bs' i = bit_at bs i" if "i \<noteq> unat index" for i
  proof (cases "i div 8 = ?p")
    case True
    with that have "i mod 8 \<noteq> ?r" using div_mod_8_eq by blast
    with True p show ?thesis by (simp add: bit_at_update new) (simp add: bit_at_def)
  next
    case False
    with p show ?thesis by (simp add: bit_at_update)
  qed
  show ?thesis
    using s1 g gv frame by (intro exI [of _ ?bs']) simp
qed

text \<open>
  The theorem at bit 11 of a two-byte bitset, with the values computed: the second byte
  goes from \<open>0xC3\<close> to \<open>0xCB\<close>, and \<^verbatim>\<open>bitset_get\<close> returns 8, the mask of bit 3.
\<close>

theorem bitset_set_get_witness:
  "wf_bitset demo_set demo_bytes \<and> (11 :: size_t) < capacity demo_set
   \<and> (\<exists>bs'. bitset_set demo_set 11 1 = Some (demo_set\<lparr>data := Some bs'\<rparr>)
           \<and> length bs' = length demo_bytes
           \<and> (\<exists>g. bitset_get (demo_set\<lparr>data := Some bs'\<rparr>) 11 = Some g
                  \<and> (g \<noteq> 0 \<longleftrightarrow> (1 :: cint) \<noteq> 0))
           \<and> (\<forall>i < 8 * length demo_bytes. i \<noteq> unat (11 :: size_t) \<longrightarrow> bit_at bs' i = bit_at demo_bytes i))
   \<and> bitset_set demo_set 11 1 = Some (demo_set\<lparr>data := Some [0x5A, 0xCB]\<rparr>)
   \<and> bitset_get (demo_set\<lparr>data := Some [0x5A, 0xCB]\<rparr>) 11 = Some 8"
proof -
  have wf: "wf_bitset demo_set demo_bytes"
    by (simp add: wf_bitset_def demo_set_def demo_bytes_def)
  have idx: "(11 :: size_t) < capacity demo_set"
    by (simp add: demo_set_def)
  have ev: "bitset_set demo_set 11 1 = Some (demo_set\<lparr>data := Some [0x5A, 0xCB]\<rparr>)"
    by (simp add: demo_set_def demo_bytes_def bitset_set_def update_byte_def bitset_byte_at_def
        to_int_def to_uchar_def neg_bool_def bit_mask_def)
  have gt: "bitset_get (demo_set\<lparr>data := Some [0x5A, 0xCB]\<rparr>) 11 = Some 8"
    by (simp add: demo_set_def bitset_get_def load_def bitset_byte_at_def to_int_def bit_mask_def)
  from bitset_set_get [OF wf idx, of 1] wf idx ev gt show ?thesis by blast
qed

section \<open>Ranged clear: what the code does\<close>

lemma unat_shift: "unat (ucast ((w :: size_t) AND 7) :: cint) = unat w mod 8"
proof -
  have "unat (ucast (w AND 7) :: cint) = take_bit 32 (unat (w AND 7))"
    by (simp add: unsigned_ucast_eq)
  also have "\<dots> = unat w mod 8" by (simp add: unat_and7 take_bit_eq_mod)
  finally show ?thesis .
qed

lemma shift_eq_0: "(ucast ((w :: size_t) AND 7) :: cint) = 0 \<longleftrightarrow> unat w mod 8 = 0"
proof -
  have "(ucast (w AND 7) :: cint) = 0 \<longleftrightarrow> unat (ucast (w AND 7) :: cint) = 0"
    by (simp add: unat_eq_zero)
  then show ?thesis by (simp only: unat_shift)
qed

lemma memset_bits:
  assumes "p + n \<le> length bs"
  shows "\<exists>bs'. memset bs p 0 n = Some bs' \<and> length bs' = length bs
           \<and> (\<forall>i < 8 * length bs. bit_at bs' i = (bit_at bs i \<and> \<not> (p \<le> i div 8 \<and> i div 8 < p + n)))"
proof -
  let ?bs' = "take p bs @ replicate n 0 @ drop (p + n) bs"
  have len: "length ?bs' = length bs" using assms by simp
  have nth: "?bs' ! j = (if p \<le> j \<and> j < p + n then 0 else bs ! j)" if "j < length bs" for j
    using assms that by (auto simp: nth_append min_def)
  have "bit_at ?bs' i = (bit_at bs i \<and> \<not> (p \<le> i div 8 \<and> i div 8 < p + n))" if "i < 8 * length bs" for i
  proof -
    from that have "i div 8 < length bs" by simp
    then show ?thesis by (simp add: bit_at_def nth)
  qed
  with len assms show ?thesis by (simp add: memset_def)
qed

lemma le_iff_div_mod8:
  "(b :: nat) \<le> i \<longleftrightarrow> b div 8 < i div 8 \<or> (b div 8 = i div 8 \<and> b mod 8 \<le> i mod 8)"
proof -
  define bq br iq ir where "bq = b div 8" and "br = b mod 8" and "iq = i div 8" and "ir = i mod 8"
  have "b = 8 * bq + br" "br < 8" "i = 8 * iq + ir" "ir < 8"
    by (simp_all add: bq_def br_def iq_def ir_def)
  then have "b \<le> i \<longleftrightarrow> bq < iq \<or> (bq = iq \<and> br \<le> ir)" by arith
  then show ?thesis by (simp only: bq_def br_def iq_def ir_def)
qed

lemma less_iff_div_mod8:
  "(i :: nat) < e \<longleftrightarrow> i div 8 < e div 8 \<or> (i div 8 = e div 8 \<and> i mod 8 < e mod 8)"
proof -
  define eq er iq ir where "eq = e div 8" and "er = e mod 8" and "iq = i div 8" and "ir = i mod 8"
  have "e = 8 * eq + er" "er < 8" "i = 8 * iq + ir" "ir < 8"
    by (simp_all add: eq_def er_def iq_def ir_def)
  then have "i < e \<longleftrightarrow> iq < eq \<or> (iq = eq \<and> ir < er)" by arith
  then show ?thesis by (simp only: eq_def er_def iq_def ir_def)
qed

lemma clear_low_keep: "bit (to_uchar (to_int b AND NOT (push_bit r (NOT 0)))) n \<longleftrightarrow> n < r \<and> bit b n"
  by (auto simp: to_uchar_def to_int_def bit_simps add.commute dest: bit8_lt)

lemma clear_high_keep: "bit (to_uchar (to_int b AND push_bit r (NOT 0))) n \<longleftrightarrow> r \<le> n \<and> bit b n"
  by (auto simp: to_uchar_def to_int_def bit_simps add.commute dest: bit8_lt)

lemma clear_field:
  "bit (to_uchar (to_int b AND NOT (push_bit r (NOT (push_bit m (NOT 0)))))) n
     \<longleftrightarrow> bit b n \<and> \<not> (r \<le> n \<and> n < r + m)"
  by (auto simp: to_uchar_def to_int_def bit_simps add.commute dest: bit8_lt)

lemma same_div8_diff:
  assumes "(b :: nat) div 8 = e div 8" shows "e - b < 8"
proof -
  define q er br where "q = e div 8" and "er = e mod 8" and "br = b mod 8"
  have "e = 8 * q + er" "er < 8" by (simp_all add: q_def er_def)
  moreover have "b = 8 * (b div 8) + br" by (simp add: br_def)
  then have "b = 8 * q + br" by (simp only: assms q_def)
  ultimately show ?thesis by arith
qed

text \<open>The same-byte branch, for any \<open>begin_idx\<close> below 32.\<close>

lemma rclear_same_byte:
  assumes d: "data s = Some bs"
    and same: "unat begin_idx div 8 = unat end_idx div 8"
    and le: "begin_idx \<le> end_idx"
    and p: "unat begin_idx div 8 < length bs"
    and b32: "unat begin_idx < 32"
  shows "bitset_rclear s begin_idx end_idx =
           Some (s\<lparr>data := Some (bs[unat begin_idx div 8 :=
                   to_uchar (to_int (bs ! (unat begin_idx div 8)) AND
                     NOT (push_bit (unat begin_idx)
                            (NOT (push_bit (unat end_idx - unat begin_idx) (NOT 0)))))])\<rparr>,
                 end_idx - begin_idx)"
proof -
  from le have sub: "unat (end_idx - begin_idx) = unat end_idx - unat begin_idx"
    by (simp add: unat_sub)
  from same have "unat end_idx - unat begin_idx < 8" by (rule same_div8_diff)
  with sub have n32: "unat (end_idx - begin_idx) < 32" by simp
  show ?thesis
    using d same p b32 n32
    by (simp add: bitset_rclear_def byte_at_nat shl_def update_byte_def sub Let_def)
qed


lemma rclear_diff_unfold:
  assumes d: "data s = Some bs"
    and diff: "unat begin_idx div 8 \<noteq> unat end_idx div 8"
  shows "bitset_rclear s begin_idx end_idx =
     map_option (\<lambda>bs'. (s\<lparr>data := Some bs'\<rparr>, end_idx - begin_idx))
       (let first = unat begin_idx div 8 + (if unat begin_idx mod 8 \<noteq> 0 then 1 else 0) in
        if unat end_idx div 8 < first then None
        else
          do {
            bs1 \<leftarrow> (if unat end_idx div 8 - first \<noteq> 0
                   then memset bs first 0 (unat end_idx div 8 - first) else Some bs);
            bs2 \<leftarrow> (if unat begin_idx mod 8 \<noteq> 0
                   then update_byte bs1 (unat begin_idx div 8)
                          (\<lambda>b. to_uchar (to_int b AND NOT (push_bit (unat begin_idx mod 8) (NOT 0))))
                   else Some bs1);
            update_byte bs2 (unat end_idx div 8)
              (\<lambda>b. to_uchar (to_int b AND push_bit (unat end_idx mod 8) (NOT 0)))
          })"
  using d diff
  by (simp only: bitset_rclear_def byte_at_nat unat_shift shift_eq_0 Let_def option.case if_False)

lemma rclear_diff_bytes:
  assumes d: "data s = Some bs"
    and diff: "unat begin_idx div 8 \<noteq> unat end_idx div 8"
    and le: "begin_idx \<le> end_idx"
    and ep: "unat end_idx div 8 < length bs"
  shows "\<exists>bs'. bitset_rclear s begin_idx end_idx = Some (s\<lparr>data := Some bs'\<rparr>, end_idx - begin_idx)
           \<and> length bs' = length bs
           \<and> (\<forall>i < 8 * length bs.
                 bit_at bs' i = (bit_at bs i \<and> \<not> (unat begin_idx \<le> i \<and> i < unat end_idx)))"
proof -
  define B E where "B = unat begin_idx" and "E = unat end_idx"
  define bp ep' r e where "bp = B div 8" and "ep' = E div 8" and "r = B mod 8" and "e = E mod 8"
  define first where "first = bp + (if r \<noteq> 0 then 1 else 0)"
  from le have BE: "B \<le> E" by (simp add: B_def E_def word_le_nat_alt)
  then have "bp \<le> ep'" unfolding bp_def ep'_def by (rule div_le_mono)
  with diff have lt: "bp < ep'" by (simp add: bp_def ep'_def B_def E_def)
  then have first_le: "first \<le> ep'" by (simp add: first_def)
  from ep have epl: "ep' < length bs" by (simp add: ep'_def E_def)
  with lt have bpl: "bp < length bs" by simp
  obtain bs1 where m1: "(if ep' - first \<noteq> 0 then memset bs first 0 (ep' - first) else Some bs) = Some bs1"
    and l1: "length bs1 = length bs"
    and b1: "\<And>i. i < 8 * length bs \<Longrightarrow>
               bit_at bs1 i = (bit_at bs i \<and> \<not> (first \<le> i div 8 \<and> i div 8 < ep'))"
  proof (cases "ep' - first \<noteq> 0")
    case True
    from first_le epl have "first + (ep' - first) \<le> length bs" by simp
    from memset_bits [OF this] first_le True that show ?thesis by auto
  next
    case False
    with first_le have "first = ep'" by simp
    with False that [of bs] show ?thesis by simp
  qed
  define f where "f = (\<lambda>b. to_uchar (to_int b AND NOT (push_bit r (NOT 0))))"
  have fbit: "bit (f b) n \<longleftrightarrow> n < r \<and> bit b n" for b n
    unfolding f_def by (rule clear_low_keep)
  define bs2 where "bs2 = (if r \<noteq> 0 then bs1[bp := f (bs1 ! bp)] else bs1)"
  have m2: "(if r \<noteq> 0 then update_byte bs1 bp (\<lambda>b. to_uchar (to_int b AND NOT (push_bit r (NOT 0))))
            else Some bs1) = Some bs2"
    using bpl l1 by (simp add: bs2_def update_byte_def f_def)
  have l2: "length bs2 = length bs" by (simp add: bs2_def l1)
  have b2: "bit_at bs2 i = (bit_at bs1 i \<and> \<not> (r \<noteq> 0 \<and> i div 8 = bp \<and> r \<le> i mod 8))" for i
    using bpl l1 by (auto simp: bs2_def bit_at_update fbit) (auto simp: bit_at_def)
  define g where "g = (\<lambda>b. to_uchar (to_int b AND push_bit e (NOT 0)))"
  have gbit: "bit (g b) n \<longleftrightarrow> e \<le> n \<and> bit b n" for b n
    unfolding g_def by (rule clear_high_keep)
  define bs3 where "bs3 = bs2[ep' := g (bs2 ! ep')]"
  have m3: "update_byte bs2 ep' (\<lambda>b. to_uchar (to_int b AND push_bit e (NOT 0))) = Some bs3"
    using epl l2 by (simp add: bs3_def update_byte_def g_def)
  have l3: "length bs3 = length bs" by (simp add: bs3_def l2)
  have b3: "bit_at bs3 i = (bit_at bs2 i \<and> \<not> (i div 8 = ep' \<and> i mod 8 < e))" for i
    using epl l2 by (auto simp: bs3_def bit_at_update gbit) (auto simp: bit_at_def)
  have unf: "bitset_rclear s begin_idx end_idx =
     map_option (\<lambda>bs'. (s\<lparr>data := Some bs'\<rparr>, end_idx - begin_idx))
       (if ep' < first then None
        else
          do {
            bs1 \<leftarrow> (if ep' - first \<noteq> 0 then memset bs first 0 (ep' - first) else Some bs);
            bs2 \<leftarrow> (if r \<noteq> 0
                   then update_byte bs1 bp (\<lambda>b. to_uchar (to_int b AND NOT (push_bit r (NOT 0))))
                   else Some bs1);
            update_byte bs2 ep' (\<lambda>b. to_uchar (to_int b AND push_bit e (NOT 0)))
          })"
    unfolding first_def bp_def ep'_def r_def e_def B_def E_def
    by (simp only: rclear_diff_unfold [OF d diff] Let_def)
  from first_le have nlt: "\<not> ep' < first" by simp
  have run: "bitset_rclear s begin_idx end_idx = Some (s\<lparr>data := Some bs3\<rparr>, end_idx - begin_idx)"
    unfolding unf
    by (simp only: nlt if_False m1 m2 m3 Option.bind.bind_lunit option.map)
  have bits: "bit_at bs3 i = (bit_at bs i \<and> \<not> (B \<le> i \<and> i < E))" if "i < 8 * length bs" for i
  proof -
    have r8: "r < 8" and e8: "e < 8" by (simp_all add: r_def e_def)
    have c1: "B \<le> i \<longleftrightarrow> bp < i div 8 \<or> (bp = i div 8 \<and> r \<le> i mod 8)"
      unfolding bp_def r_def by (rule le_iff_div_mod8)
    have c2: "i < E \<longleftrightarrow> i div 8 < ep' \<or> (i div 8 = ep' \<and> i mod 8 < e)"
      unfolding ep'_def e_def by (rule less_iff_div_mod8)
    have "(first \<le> i div 8 \<and> i div 8 < ep') \<or> (r \<noteq> 0 \<and> i div 8 = bp \<and> r \<le> i mod 8)
            \<or> (i div 8 = ep' \<and> i mod 8 < e) \<longleftrightarrow> B \<le> i \<and> i < E"
      unfolding c1 c2 first_def using lt by (cases "r = 0") auto
    then show ?thesis using b1 [OF that] by (auto simp: b2 b3)
  qed
  show ?thesis
    using run l3 bits by (intro exI [of _ bs3]) (simp add: B_def E_def)
qed


text \<open>
  Where \<^verbatim>\<open>bitset_rclear\<close> clears its range: let the bitset be well formed,
  \<open>begin_idx \<le> end_idx < capacity\<close> (so the byte that \<^verbatim>\<open>end_ptr\<close> points to lies in the
  buffer), and let the two indices lie in different bytes or \<open>begin_idx\<close> be below 8. Then
  \<^verbatim>\<open>bitset_rclear\<close> succeeds, returns \<open>end_idx - begin_idx\<close>, leaves capacity and size
  alone, sets every bit of \<open>[begin_idx, end_idx)\<close> to 0 and keeps every other bit of the
  buffer. When both indices lie in the same byte, that byte is ANDed with
  \<^verbatim>\<open>~(~(~0 << (end - begin)) << (begin mod 8))\<close>.
\<close>

theorem bitset_rclear_correct:
  assumes wf: "wf_bitset s bs"
    and le: "begin_idx \<le> end_idx"
    and cap: "end_idx < capacity s"
    and dom: "bitset_byte_at begin_idx \<noteq> bitset_byte_at end_idx \<or> begin_idx < 8"
  shows "\<exists>bs'. bitset_rclear s begin_idx end_idx = Some (s\<lparr>data := Some bs'\<rparr>, end_idx - begin_idx)
           \<and> unat (end_idx - begin_idx) = unat end_idx - unat begin_idx
           \<and> length bs' = length bs
           \<and> (\<forall>i < 8 * length bs.
                 bit_at bs' i = (bit_at bs i \<and> \<not> (unat begin_idx \<le> i \<and> i < unat end_idx)))
           \<and> (bitset_byte_at begin_idx = bitset_byte_at end_idx \<longrightarrow>
                 bs' = bs[bitset_byte_at begin_idx :=
                         to_uchar (to_int (bs ! bitset_byte_at begin_idx) AND
                           NOT (push_bit (unat begin_idx mod 8)
                                  (NOT (push_bit (unat end_idx - unat begin_idx) (NOT 0)))))])"
proof -
  from wf have d: "data s = Some bs" and c: "8 * length bs = unat (capacity s)"
    by (simp_all add: wf_bitset_def)
  from cap c have ep: "unat end_idx div 8 < length bs" by (simp add: word_less_nat_alt)
  from le have sub: "unat (end_idx - begin_idx) = unat end_idx - unat begin_idx"
    by (simp add: unat_sub)
  from le have BE: "unat begin_idx \<le> unat end_idx" by (simp add: word_le_nat_alt)
  show ?thesis
  proof (cases "unat begin_idx div 8 = unat end_idx div 8")
    case False
    from rclear_diff_bytes [OF d False le ep] sub False show ?thesis
      by (auto simp: byte_at_nat)
  next
    case True
    with dom have "begin_idx < 8" by (simp add: byte_at_nat)
    then have b8: "unat begin_idx < 8" by (simp add: word_less_nat_alt)
    then have bq: "unat begin_idx div 8 = 0" and bm: "unat begin_idx mod 8 = unat begin_idx"
      by simp_all
    with True have "unat end_idx div 8 = 0" by simp
    then have e8: "unat end_idx < 8" by (simp add: div_eq_0_iff)
    from ep True have p: "unat begin_idx div 8 < length bs" by simp
    define f where "f = (\<lambda>b. to_uchar (to_int b AND
        NOT (push_bit (unat begin_idx) (NOT (push_bit (unat end_idx - unat begin_idx) (NOT 0))))))"
    have fbit: "bit (f b) n \<longleftrightarrow> bit b n \<and> \<not> (unat begin_idx \<le> n \<and> n < unat end_idx)" for b n
      unfolding f_def clear_field using BE by simp
    have run: "bitset_rclear s begin_idx end_idx = Some (s\<lparr>data := Some (bs[0 := f (bs ! 0)])\<rparr>, end_idx - begin_idx)"
      using b8 rclear_same_byte [OF d True le p] by (simp only: bq f_def)
    have bits: "bit_at (bs[0 := f (bs ! 0)]) i = (bit_at bs i \<and> \<not> (unat begin_idx \<le> i \<and> i < unat end_idx))"
      if "i < 8 * length bs" for i
    proof (cases "i div 8 = 0")
      case True
      then have "i mod 8 = i" by (simp add: div_eq_0_iff)
      with True p bq show ?thesis by (simp add: bit_at_update fbit) (simp add: bit_at_def)
    next
      case False
      then have "8 \<le> i" by (simp add: div_eq_0_iff)
      with False p bq e8 show ?thesis by (simp add: bit_at_update)
    qed
    show ?thesis
      using run sub bits by (intro exI [of _ "bs[0 := f (bs ! 0)]"]) (simp add: byte_at_nat bq bm f_def)
  qed
qed

text \<open>
  The theorem at \<open>[3, 13)\<close> of \<open>demo_set\<close>, across two bytes (the bytes become
  \<open>0x02\<close>, \<open>0xC0\<close>), and at \<open>[1, 5)\<close>, inside byte 0 (\<open>0x5A\<close> becomes \<open>0x40\<close>).
\<close>

theorem bitset_rclear_correct_witness:
  "wf_bitset demo_set demo_bytes \<and> (3 :: size_t) \<le> 13 \<and> (13 :: size_t) < capacity demo_set
   \<and> bitset_byte_at 3 \<noteq> bitset_byte_at 13
   \<and> (\<exists>bs'. bitset_rclear demo_set 3 13 = Some (demo_set\<lparr>data := Some bs'\<rparr>, 13 - 3)
           \<and> unat (13 - 3 :: size_t) = unat (13 :: size_t) - unat (3 :: size_t)
           \<and> length bs' = length demo_bytes
           \<and> (\<forall>i < 8 * length demo_bytes.
                 bit_at bs' i = (bit_at demo_bytes i \<and> \<not> (unat (3 :: size_t) \<le> i \<and> i < unat (13 :: size_t)))))
   \<and> bitset_rclear demo_set 3 13 = Some (demo_set\<lparr>data := Some [0x02, 0xC0]\<rparr>, 10)
   \<and> (1 :: size_t) \<le> 5 \<and> (5 :: size_t) < capacity demo_set
   \<and> bitset_byte_at 1 = bitset_byte_at 5
   \<and> (\<exists>bs'. bitset_rclear demo_set 1 5 = Some (demo_set\<lparr>data := Some bs'\<rparr>, 5 - 1)
           \<and> (\<forall>i < 8 * length demo_bytes.
                 bit_at bs' i = (bit_at demo_bytes i \<and> \<not> (unat (1 :: size_t) \<le> i \<and> i < unat (5 :: size_t)))))
   \<and> bitset_rclear demo_set 1 5 = Some (demo_set\<lparr>data := Some [0x40, 0xC3]\<rparr>, 4)"
proof -
  have wf: "wf_bitset demo_set demo_bytes"
    by (simp add: wf_bitset_def demo_set_def demo_bytes_def)
  have le: "(3 :: size_t) \<le> 13" by simp
  have cap: "(13 :: size_t) < capacity demo_set" by (simp add: demo_set_def)
  have dom: "bitset_byte_at 3 \<noteq> bitset_byte_at 13 \<or> (3 :: size_t) < 8"
    by (simp add: bitset_byte_at_def)
  have ev: "bitset_rclear demo_set 3 13 = Some (demo_set\<lparr>data := Some [0x02, 0xC0]\<rparr>, 10)"
    by code_simp
  have le2: "(1 :: size_t) \<le> 5" by simp
  have cap2: "(5 :: size_t) < capacity demo_set" by (simp add: demo_set_def)
  have same: "bitset_byte_at 1 = bitset_byte_at 5" by (simp add: bitset_byte_at_def)
  have dom2: "bitset_byte_at 1 \<noteq> bitset_byte_at 5 \<or> (1 :: size_t) < 8" by simp
  have ev2: "bitset_rclear demo_set 1 5 = Some (demo_set\<lparr>data := Some [0x40, 0xC3]\<rparr>, 4)"
    by code_simp
  have far: "bitset_byte_at 3 \<noteq> bitset_byte_at 13" by (simp add: bitset_byte_at_def)
  from bitset_rclear_correct [OF wf le cap dom] bitset_rclear_correct [OF wf le2 cap2 dom2]
    wf le cap far ev le2 cap2 same ev2
  show ?thesis by blast
qed

text \<open>
  C1 does not hold of the code, on the two-byte bitset \<open>demo_set\<close> (bytes \<open>0x5A\<close>,
  \<open>0xC3\<close>, capacity 16). Clearing \<open>[9, 11)\<close> takes the same-byte branch, which shifts
  its mask by \<^verbatim>\<open>begin\<close> (9) where the other branch shifts by \<^verbatim>\<open>begin_shift\<close>
  (\<^verbatim>\<open>begin & 7\<close>): the call returns 2 and the buffer is as it was, with bit 9 still set.
  Clearing \<open>[0, 16)\<close>, up to the capacity, runs \<^verbatim>\<open>*end_ptr &= ~0 << end_shift\<close> on the
  byte one past the buffer.
\<close>

theorem bitset_rclear_misses_range:
  "bitset_rclear demo_set 9 11 = Some (demo_set, 2)
   \<and> data demo_set = Some demo_bytes \<and> bit_at demo_bytes 9
   \<and> capacity demo_set = 16 \<and> length demo_bytes = 2
   \<and> bitset_rclear demo_set 0 16 = None"
  by (simp add: demo_set_def demo_bytes_def bitset_rclear_def bitset_byte_at_def shl_def
      update_byte_def memset_def to_int_def to_uchar_def bit_at_def mask_eq_exp_minus_1 push_bit_eq_mult)

text \<open>
  The same-byte mask of the code has an inner complement: clearing \<open>[1, 3)\<close> of
  \<open>demo_set\<close> turns \<open>0x5A\<close> into \<open>0x58\<close>, which is \<open>0x5A\<close> ANDed with
  \<^verbatim>\<open>~(~(~0 << 2) << 1)\<close> and not with \<^verbatim>\<open>~((~0 << 2) << 1)\<close>.
\<close>

lemma bitset_rclear_mask_shape:
  "bitset_rclear demo_set 1 3 = Some (demo_set\<lparr>data := Some [0x58, 0xC3]\<rparr>, 2)
   \<and> to_uchar (to_int 0x5A AND NOT (push_bit 1 (NOT (push_bit 2 (NOT 0))))) = 0x58
   \<and> to_uchar (to_int 0x5A AND NOT (push_bit 1 (push_bit 2 (NOT 0)))) \<noteq> 0x58"
  by (simp add: demo_set_def demo_bytes_def bitset_rclear_def bitset_byte_at_def shl_def
      update_byte_def memset_def to_int_def to_uchar_def bit_at_def mask_eq_exp_minus_1 push_bit_eq_mult)

section \<open>Bulk write: what the code does\<close>

lemma update_byte_pointwise:
  assumes p: "p < length bs" and f: "\<And>b n. bit (f b) n = G n (bit b n)"
  shows "\<exists>bs'. update_byte bs p f = Some bs' \<and> length bs' = length bs
           \<and> (\<forall>i. bit_at bs' i = (if i div 8 = p then G (i mod 8) (bit_at bs i) else bit_at bs i))"
proof -
  have "bit_at (bs[p := f (bs ! p)]) i
          = (if i div 8 = p then G (i mod 8) (bit_at bs i) else bit_at bs i)" for i
    using p by (simp add: bit_at_update f) (simp add: bit_at_def)
  with p show ?thesis by (simp add: update_byte_def)
qed

lemma load_Some: "k < length seq \<Longrightarrow> load seq k = Some (seq ! k)"
  by (simp add: load_def)

lemma or_shifted:
  "bit (to_uchar (to_int b OR push_bit r (to_int v))) n
     \<longleftrightarrow> bit b n \<or> (n < 8 \<and> r \<le> n \<and> bit v (n - r))"
  by (auto simp: to_uchar_def to_int_def bit_simps add.commute dest: bit8_lt)

lemma or_carry:
  "r < 8 \<Longrightarrow>
   bit (to_uchar (to_int b OR (drop_bit (8 - r) (to_int v) AND NOT (push_bit r (NOT 0))))) n
     \<longleftrightarrow> bit b n \<or> (n < r \<and> bit v (n + 8 - r))"
  by (auto simp: to_uchar_def to_int_def bit_simps add.commute dest: bit8_lt)

lemma or_field:
  "r + m < 8 \<Longrightarrow>
   bit (to_uchar (to_int b OR (push_bit r (to_int v) AND push_bit r (NOT (push_bit m (NOT 0)))))) n
     \<longleftrightarrow> bit b n \<or> (r \<le> n \<and> n < r + m \<and> bit v (n - r))"
  by (auto simp: to_uchar_def to_int_def bit_simps add.commute dest: bit8_lt)

lemma or_shifted_masked:
  "bit (to_uchar (to_int b OR (push_bit r (to_int v) AND push_bit r (NOT 0)))) n
     \<longleftrightarrow> bit b n \<or> (n < 8 \<and> r \<le> n \<and> bit v (n - r))"
  by (auto simp: to_uchar_def to_int_def bit_simps add.commute dest: bit8_lt)

lemma keep_from_tail:
  "r < 8 \<Longrightarrow> m < 8 \<Longrightarrow> 8 < r + m \<Longrightarrow>
   bit (to_uchar (to_int b AND drop_bit (8 - m) (push_bit r (NOT 0)))) n
     \<longleftrightarrow> bit b n \<and> r + m \<le> n + 8"
  by (auto simp: to_uchar_def to_int_def bit_simps add.commute dest: bit8_lt)

lemma or_carry_tail:
  "r < 8 \<Longrightarrow> m < 8 \<Longrightarrow> 8 < r + m \<Longrightarrow>
   bit (to_uchar (to_int b OR (drop_bit (8 - r) (to_int v)
          AND NOT (drop_bit (8 - m) (push_bit r (NOT 0)))))) n
     \<longleftrightarrow> bit b n \<or> (n + 8 < r + m \<and> bit v (n + 8 - r))"
  by (auto simp: to_uchar_def to_int_def bit_simps add.commute dest: bit8_lt)

lemma unat_8_minus: "unat (shift :: cint) < 8 \<Longrightarrow> unat (8 - shift) = 8 - unat shift"
  by (simp add: unat_sub word_le_nat_alt)

lemma unat_8_minus_sz: "unat (sz :: size_t) < 8 \<Longrightarrow> unat (8 - sz) = 8 - unat sz"
  by (simp add: unat_sub word_le_nat_alt)

lemma window_iff:
  assumes "r < 8"
  shows "8 * p + r \<le> (i :: nat) \<and> i < 8 * p + r + 8
           \<longleftrightarrow> (i div 8 = p \<and> r \<le> i mod 8) \<or> (i div 8 = p + 1 \<and> i mod 8 < r)"
proof -
  define q t where "q = i div 8" and "t = i mod 8"
  have "i = 8 * q + t" "t < 8" by (simp_all add: q_def t_def)
  with assms have "8 * p + r \<le> i \<and> i < 8 * p + r + 8
           \<longleftrightarrow> (q = p \<and> r \<le> t) \<or> (q = p + 1 \<and> t < r)" by arith
  then show ?thesis by (simp only: q_def t_def)
qed

lemma window_offset:
  "(i :: nat) div 8 = p \<Longrightarrow> r \<le> i mod 8 \<Longrightarrow> i - (8 * p + r) = i mod 8 - r"
  "i div 8 = p + 1 \<Longrightarrow> i mod 8 < r \<Longrightarrow> r < 8 \<Longrightarrow> i - (8 * p + r) = i mod 8 + 8 - r"
proof -
  define q t where "q = i div 8" and "t = i mod 8"
  have i: "i = 8 * q + t" "t < 8" by (simp_all add: q_def t_def)
  then have "q = p \<Longrightarrow> r \<le> t \<Longrightarrow> i - (8 * p + r) = t - r" by arith
  then show "i div 8 = p \<Longrightarrow> r \<le> i mod 8 \<Longrightarrow> i - (8 * p + r) = i mod 8 - r"
    by (simp only: q_def t_def)
  from i have "q = p + 1 \<Longrightarrow> t < r \<Longrightarrow> r < 8 \<Longrightarrow> i - (8 * p + r) = t + 8 - r" by arith
  then show "i div 8 = p + 1 \<Longrightarrow> i mod 8 < r \<Longrightarrow> r < 8 \<Longrightarrow> i - (8 * p + r) = i mod 8 + 8 - r"
    by (simp only: q_def t_def)
qed


lemma write_step_bits:
  assumes r: "unat shift < 8"
    and m: "msk = push_bit (unat shift) (NOT 0)"
    and e: "entry < length bs"
    and e1: "shift \<noteq> 0 \<Longrightarrow> entry + 1 < length bs"
    and k: "k < length seq"
  shows "\<exists>bs'. write_step shift msk seq bs entry k = Some bs' \<and> length bs' = length bs
           \<and> (\<forall>i. bit_at bs' i =
                 (if 8 * entry + unat shift \<le> i \<and> i < 8 * entry + unat shift + 8
                  then bit (seq ! k) (i - (8 * entry + unat shift)) else bit_at bs i))"
proof -
  define r' v where "r' = unat shift" and "v = seq ! k"
  have r8: "r' < 8" using r by (simp add: r'_def)
  have ld: "load seq k = Some v" using k by (simp add: load_Some v_def)
  have f1: "\<And>b n. bit (to_uchar (to_int b AND NOT msk)) n = (n < r' \<and> bit b n)"
    unfolding m r'_def by (rule clear_low_keep)
  from update_byte_pointwise [where f = "\<lambda>b. to_uchar (to_int b AND NOT msk)"
      and G = "\<lambda>n old. n < r' \<and> old", OF e f1]
  obtain x1 where u1: "update_byte bs entry (\<lambda>b. to_uchar (to_int b AND NOT msk)) = Some x1"
    and l1: "length x1 = length bs"
    and b1: "\<And>i. bit_at x1 i = (if i div 8 = entry then i mod 8 < r' \<and> bit_at bs i else bit_at bs i)"
    by blast
  have f2: "\<And>b n. bit (to_uchar (to_int b OR push_bit (unat shift) (to_int v))) n
              = (bit b n \<or> (n < 8 \<and> r' \<le> n \<and> bit v (n - r')))"
    unfolding r'_def by (rule or_shifted)
  from e l1 have e': "entry < length x1" by simp
  from update_byte_pointwise [where f = "\<lambda>b. to_uchar (to_int b OR push_bit (unat shift) (to_int v))"
      and G = "\<lambda>n old. old \<or> (n < 8 \<and> r' \<le> n \<and> bit v (n - r'))", OF e' f2]
  obtain x2 where u2: "update_byte x1 entry (\<lambda>b. to_uchar (to_int b OR push_bit (unat shift) (to_int v))) = Some x2"
    and l2: "length x2 = length x1"
    and b2: "\<And>i. bit_at x2 i = (if i div 8 = entry
                 then bit_at x1 i \<or> (i mod 8 < 8 \<and> r' \<le> i mod 8 \<and> bit v (i mod 8 - r'))
                 else bit_at x1 i)"
    by blast
  show ?thesis
  proof (cases "shift = 0")
    case True
    then have r0: "r' = 0" by (simp add: r'_def)
    from True have ne: "(shift \<noteq> 0) = False" by simp
    have run: "write_step shift msk seq bs entry k = Some x2"
      by (simp only: write_step_def u1 ld u2 Option.bind.bind_lunit ne if_False)
    have "bit_at x2 i = (if 8 * entry + r' \<le> i \<and> i < 8 * entry + r' + 8
                  then bit v (i - (8 * entry + r')) else bit_at bs i)" for i
      unfolding window_iff [OF r8] b2 b1 using window_offset(1) [of i entry r']
      by (simp add: r0)
    with run l1 l2 show ?thesis by (auto simp: r'_def v_def)
  next
    case False
    then have rpos: "0 < r'" by (simp add: r'_def unat_gt_0)
    from e1 [OF False] l1 l2 have e1': "entry + 1 < length x2" by simp
    have f3: "\<And>b n. bit (to_uchar (to_int b AND msk)) n = (r' \<le> n \<and> bit b n)"
      unfolding m r'_def by (rule clear_high_keep)
    from update_byte_pointwise [where f = "\<lambda>b. to_uchar (to_int b AND msk)"
        and G = "\<lambda>n old. r' \<le> n \<and> old", OF e1' f3]
    obtain x3 where u3: "update_byte x2 (entry + 1) (\<lambda>b. to_uchar (to_int b AND msk)) = Some x3"
      and l3: "length x3 = length x2"
      and b3: "\<And>i. bit_at x3 i = (if i div 8 = entry + 1 then r' \<le> i mod 8 \<and> bit_at x2 i else bit_at x2 i)"
      by blast
    have f4: "\<And>b n. bit (to_uchar (to_int b OR
                  (drop_bit (unat (8 - shift)) (to_int v) AND NOT msk))) n
              = (bit b n \<or> (n < r' \<and> bit v (n + 8 - r')))"
      unfolding m unat_8_minus [OF r] r'_def using r by (intro allI or_carry)
    from e1' l3 have e1'': "entry + 1 < length x3" by simp
    from update_byte_pointwise [where f = "\<lambda>b. to_uchar (to_int b OR
          (drop_bit (unat (8 - shift)) (to_int v) AND NOT msk))"
        and G = "\<lambda>n old. old \<or> (n < r' \<and> bit v (n + 8 - r'))", OF e1'' f4]
    obtain x4 where u4: "update_byte x3 (entry + 1) (\<lambda>b. to_uchar (to_int b OR
          (drop_bit (unat (8 - shift)) (to_int v) AND NOT msk))) = Some x4"
      and l4: "length x4 = length x3"
      and b4: "\<And>i. bit_at x4 i = (if i div 8 = entry + 1
                 then bit_at x3 i \<or> (i mod 8 < r' \<and> bit v (i mod 8 + 8 - r')) else bit_at x3 i)"
      by blast
    have run: "write_step shift msk seq bs entry k = Some x4"
      by (simp only: write_step_def u1 ld u2 u3 u4 Option.bind.bind_lunit False not_False_eq_True if_True)
    have "bit_at x4 i = (if 8 * entry + r' \<le> i \<and> i < 8 * entry + r' + 8
                  then bit v (i - (8 * entry + r')) else bit_at bs i)" for i
      unfolding window_iff [OF r8] b4 b3 b2 b1
      using window_offset(1) [of i entry r'] window_offset(2) [of i entry r'] r8
      by auto
    with run l1 l2 l3 l4 show ?thesis by (auto simp: r'_def v_def)
  qed
qed


lemma bit_at_byte: "n < 8 \<Longrightarrow> bit_at seq (8 * k + n) = bit (seq ! k) n"
  by (simp add: bit_at_def)

lemma write_loop_bits:
  assumes r: "unat shift < 8"
    and m: "msk = push_bit (unat shift) (NOT 0)"
    and fit: "8 * entry + unat shift + unat sz \<le> 8 * length bs"
    and src: "k + unat sz div 8 \<le> length seq"
  shows "\<exists>bs' sz'. write_loop shift msk seq bs entry k sz
             = Some (bs', entry + unat sz div 8, k + unat sz div 8, sz')
           \<and> unat sz' = unat sz mod 8 \<and> length bs' = length bs
           \<and> (\<forall>i. bit_at bs' i =
                 (if 8 * entry + unat shift \<le> i
                     \<and> i < 8 * entry + unat shift + 8 * (unat sz div 8)
                  then bit_at seq (8 * k + (i - (8 * entry + unat shift)))
                  else bit_at bs i))"
  using assms
proof (induction shift msk seq bs entry k sz rule: write_loop.induct)
  case (1 shift msk seq bs entry k sz)
  define r' n where "r' = unat shift" and "n = unat sz"
  show ?case
  proof (cases "drop_bit 3 sz = 0")
    case True
    then have small: "unat sz < 8" by (simp add: drop_bit3_eq_0)
    have stop: "write_loop shift msk seq bs entry k sz = Some (bs, entry, k, sz)"
      by (subst write_loop.simps) (simp add: True)
    from small have "unat sz div 8 = 0" "unat sz mod 8 = unat sz" by simp_all
    then show ?thesis by (simp only: stop) auto
  next
    case False
    then have ge: "8 \<le> n" by (simp add: drop_bit3_eq_0 n_def)
    then have c1: "1 \<le> n div 8" by simp
    from ge have sub: "unat (sz - 8) = n - 8" by (simp add: unat_sub8 n_def)
    from "1.prems"(3) ge have e: "entry < length bs" by (simp add: n_def)
    have e1: "entry + 1 < length bs" if "shift \<noteq> 0"
    proof -
      from that have "0 < unat shift" by (simp add: unat_gt_0)
      with "1.prems"(3) ge show ?thesis by (simp add: n_def)
    qed
    from "1.prems"(4) c1 have k: "k < length seq" by (simp add: n_def)
    from write_step_bits [OF "1.prems"(1) "1.prems"(2) e e1 k]
    obtain x where st: "write_step shift msk seq bs entry k = Some x"
      and lx: "length x = length bs"
      and bx: "\<And>i. bit_at x i = (if 8 * entry + r' \<le> i \<and> i < 8 * entry + r' + 8
                  then bit (seq ! k) (i - (8 * entry + r')) else bit_at bs i)"
      unfolding r'_def by blast
    have fit': "8 * (entry + 1) + unat shift + unat (sz - 8) \<le> 8 * length x"
      using "1.prems"(3) ge by (simp add: sub lx n_def)
    have dv: "(n - 8) div 8 = n div 8 - 1" using ge le_div_geq [of 8 n] by simp
    have src': "k + 1 + unat (sz - 8) div 8 \<le> length seq"
      using "1.prems"(4) c1 by (simp add: sub dv n_def)
    from "1.IH" [OF False st "1.prems"(1) "1.prems"(2) fit' src']
    obtain bs' sz' where rec: "write_loop shift msk seq x (entry + 1) (k + 1) (sz - 8)
          = Some (bs', entry + 1 + (n - 8) div 8, k + 1 + (n - 8) div 8, sz')"
      and sz': "unat sz' = (n - 8) mod 8"
      and lb: "length bs' = length x"
      and bb: "\<And>i. bit_at bs' i =
                 (if 8 * (entry + 1) + r' \<le> i \<and> i < 8 * (entry + 1) + r' + 8 * ((n - 8) div 8)
                  then bit_at seq (8 * (k + 1) + (i - (8 * (entry + 1) + r')))
                  else bit_at x i)"
      unfolding sub r'_def by blast
    have "write_loop shift msk seq bs entry k sz
          = Some (bs', entry + 1 + (n - 8) div 8, k + 1 + (n - 8) div 8, sz')"
      by (subst write_loop.simps) (simp only: False if_False st Option.bind.bind_lunit rec)
    with c1 have run: "write_loop shift msk seq bs entry k sz
          = Some (bs', entry + n div 8, k + n div 8, sz')"
      by (simp add: dv)
    have md: "(n - 8) mod 8 = n mod 8" using ge le_mod_geq [of 8 n] by simp
    have bits: "bit_at bs' i =
                 (if 8 * entry + r' \<le> i \<and> i < 8 * entry + r' + 8 * (n div 8)
                  then bit_at seq (8 * k + (i - (8 * entry + r')))
                  else bit_at bs i)" for i
    proof (cases "8 * entry + r' \<le> i \<and> i < 8 * entry + r' + 8")
      case True
      then have "i - (8 * entry + r') < 8" by arith
      then have "bit (seq ! k) (i - (8 * entry + r')) = bit_at seq (8 * k + (i - (8 * entry + r')))"
        by (simp add: bit_at_byte)
      with True c1 show ?thesis by (simp add: bb bx)
    next
      case False
      have "8 * (k + 1) + (i - (8 * (entry + 1) + r')) = 8 * k + (i - (8 * entry + r'))"
        if "8 * (entry + 1) + r' \<le> i"
        using that by arith
      with False c1 show ?thesis by (auto simp: bb bx dv)
    qed
    from sz' md have szm: "unat sz' = n mod 8" by simp
    from lb lx have len: "length bs' = length bs" by simp
    from run szm len bits show ?thesis
      unfolding n_def r'_def by (intro exI [of _ bs'] exI [of _ sz']) simp
  qed
qed

lemma unat_end_pos:
  assumes "unat (shift :: cint) < 8" and "unat (sz :: size_t) < 8"
  shows "unat (ucast (ucast shift + sz) :: cint) = unat shift + unat sz"
proof -
  have a: "unat (ucast shift :: size_t) = unat shift"
    by (simp add: unsigned_ucast_eq take_bit_nat_eq_self_iff)
       (rule less_le_trans [OF unsigned_less], simp)
  have "unat (ucast shift + sz) = (unat shift + unat sz) mod 2 ^ 64"
    by (simp add: unat_word_ariths a)
  also have "\<dots> = unat shift + unat sz" using assms by simp
  finally have b: "unat (ucast shift + sz) = unat shift + unat sz" .
  have "unat (ucast (ucast shift + sz) :: cint) = take_bit 32 (unat shift + unat sz)"
    by (simp add: unsigned_ucast_eq b)
  also have "\<dots> = unat shift + unat sz" using assms by (simp add: take_bit_nat_eq_self_iff)
  finally show ?thesis .
qed

lemma end_pos_less:
  assumes "unat (shift :: cint) < 8" and "unat (sz :: size_t) < 8"
  shows "((ucast (ucast shift + sz) :: cint) < 8) = (unat shift + unat sz < 8)"
    and "(8 < (ucast (ucast shift + sz) :: cint)) = (8 < unat shift + unat sz)"
  by (simp_all add: word_less_nat_alt unat_end_pos [OF assms])



lemma tail_window_iff:
  assumes "r < 8" "r + n \<le> 8"
  shows "8 * p + r \<le> (i :: nat) \<and> i < 8 * p + r + n \<longleftrightarrow> i div 8 = p \<and> r \<le> i mod 8 \<and> i mod 8 < r + n"
proof -
  define q t where "q = i div 8" and "t = i mod 8"
  have i: "i = 8 * q + t" "t < 8" by (simp_all add: q_def t_def)
  have "8 * p + r \<le> i \<and> i < 8 * p + r + n \<longleftrightarrow> q = p \<and> r \<le> t \<and> t < r + n"
  proof (cases "q = p")
    case True
    with i show ?thesis by auto
  next
    case False
    then consider "q < p" | "p < q" by arith
    then show ?thesis
    proof cases
      case 1
      then have "8 * q + 8 \<le> 8 * p" by simp
      with i False show ?thesis by auto
    next
      case 2
      then have "8 * p + 8 \<le> 8 * q" by simp
      with i assms False show ?thesis by auto
    qed
  qed
  then show ?thesis by (simp only: q_def t_def)
qed

lemma tail_window_iff2:
  assumes "r < 8" "n < 8" "8 < r + n"
  shows "8 * p + r \<le> (i :: nat) \<and> i < 8 * p + r + n
           \<longleftrightarrow> (i div 8 = p \<and> r \<le> i mod 8) \<or> (i div 8 = p + 1 \<and> i mod 8 + 8 < r + n)"
proof -
  define q t where "q = i div 8" and "t = i mod 8"
  have i: "i = 8 * q + t" "t < 8" by (simp_all add: q_def t_def)
  have "8 * p + r \<le> i \<and> i < 8 * p + r + n
           \<longleftrightarrow> (q = p \<and> r \<le> t) \<or> (q = p + 1 \<and> t + 8 < r + n)"
  proof -
    consider "q < p" | "q = p" | "q = p + 1" | "p + 2 \<le> q" by arith
    then show ?thesis
    proof cases
      case 1
      then have "8 * q + 8 \<le> 8 * p" by simp
      with i 1 show ?thesis by auto
    next
      case 2
      with i assms show ?thesis by auto
    next
      case 3
      with i assms show ?thesis by auto
    next
      case 4
      then have "8 * p + 16 \<le> 8 * q" by simp
      with i assms 4 show ?thesis by auto
    qed
  qed
  then show ?thesis by (simp only: q_def t_def)
qed

lemma write_tail_A:
  assumes r: "unat shift < 8"
    and n: "unat sz < 8" and nz: "sz \<noteq> 0"
    and lt: "unat shift + unat sz < 8"
    and e: "entry < length bs"
    and k: "k < length seq"
  shows "\<exists>bs'. write_tail shift msk0 seq bs entry k sz = Some bs' \<and> length bs' = length bs
           \<and> (\<forall>i. bit_at bs' i =
                 (if 8 * entry + unat shift \<le> i \<and> i < 8 * entry + unat shift + unat sz
                  then bit (seq ! k) (i - (8 * entry + unat shift)) else bit_at bs i))"
proof -
  define r' n' v where "r' = unat shift" and "n' = unat sz" and "v = seq ! k"
  have r8: "r' < 8" and n8: "n' < 8" using r n by (simp_all add: r'_def n'_def)
  from nz have z: "(sz = 0) = False" by simp
  have ld: "load seq k = Some v" using k by (simp add: load_Some v_def)
  note ep = end_pos_less [OF r n]
  from lt have c1: "((ucast (ucast shift + sz) :: cint) < 8) = True"
      and c2: "(8 < (ucast (ucast shift + sz) :: cint)) = False"
      by (simp_all add: ep)
  define F where "F = (push_bit (unat shift) (NOT (push_bit (unat sz) (NOT 0))) :: cint)"
  have f1: "\<And>b n. bit (to_uchar (to_int b AND NOT F)) n
                = (bit b n \<and> \<not> (r' \<le> n \<and> n < r' + n'))"
      unfolding r'_def n'_def F_def by (rule clear_field)
  from update_byte_pointwise [where f = "\<lambda>b. to_uchar (to_int b AND NOT F)"
        and G = "\<lambda>n old. old \<and> \<not> (r' \<le> n \<and> n < r' + n')", OF e f1]
  obtain x1 where u1: "update_byte bs entry (\<lambda>b. to_uchar (to_int b AND NOT F)) = Some x1"
      and l1: "length x1 = length bs"
      and b1: "\<And>i. bit_at x1 i = (if i div 8 = entry
                 then bit_at bs i \<and> \<not> (r' \<le> i mod 8 \<and> i mod 8 < r' + n') else bit_at bs i)"
      by blast
  have f2: "\<And>b n. bit (to_uchar (to_int b OR (push_bit (unat shift) (to_int v) AND F))) n
                = (bit b n \<or> (r' \<le> n \<and> n < r' + n' \<and> bit v (n - r')))"
      unfolding r'_def n'_def F_def using lt by (intro allI or_field)
  from e l1 have e': "entry < length x1" by simp
  from update_byte_pointwise [where f = "\<lambda>b. to_uchar (to_int b OR (push_bit (unat shift) (to_int v) AND F))"
        and G = "\<lambda>n old. old \<or> (r' \<le> n \<and> n < r' + n' \<and> bit v (n - r'))", OF e' f2]
  obtain x2 where u2: "update_byte x1 entry
          (\<lambda>b. to_uchar (to_int b OR (push_bit (unat shift) (to_int v) AND F))) = Some x2"
      and l2: "length x2 = length x1"
      and b2: "\<And>i. bit_at x2 i = (if i div 8 = entry
                 then bit_at x1 i \<or> (r' \<le> i mod 8 \<and> i mod 8 < r' + n' \<and> bit v (i mod 8 - r'))
                 else bit_at x1 i)"
      by blast
  have run: "write_tail shift msk0 seq bs entry k sz = Some x2"
      by (simp only: write_tail_def Let_def z c1 c2 if_True if_False F_def [symmetric] u1 ld u2 Option.bind.bind_lunit)
  from lt have le8: "r' + n' \<le> 8" by (simp add: r'_def n'_def)
  have "bit_at x2 i = (if 8 * entry + r' \<le> i \<and> i < 8 * entry + r' + n'
                  then bit v (i - (8 * entry + r')) else bit_at bs i)" for i
      unfolding tail_window_iff [OF r8 le8] b2 b1 using window_offset(1) [of i entry r']
      by auto
  with run l1 l2 show ?thesis by (auto simp: r'_def n'_def v_def)
qed


lemma write_tail_B:
  assumes r: "unat shift < 8"
    and m: "msk0 = push_bit (unat shift) (NOT 0)"
    and n: "unat sz < 8" and nz: "sz \<noteq> 0"
    and ge: "unat shift + unat sz = 8"
    and e: "entry < length bs"
    and k: "k < length seq"
  shows "\<exists>bs'. write_tail shift msk0 seq bs entry k sz = Some bs' \<and> length bs' = length bs
           \<and> (\<forall>i. bit_at bs' i =
                 (if 8 * entry + unat shift \<le> i \<and> i < 8 * entry + unat shift + unat sz
                  then bit (seq ! k) (i - (8 * entry + unat shift)) else bit_at bs i))"
proof -
  define r' n' v where "r' = unat shift" and "n' = unat sz" and "v = seq ! k"
  have r8: "r' < 8" and n8: "n' < 8" using r n by (simp_all add: r'_def n'_def)
  from nz have z: "(sz = 0) = False" by simp
  have ld: "load seq k = Some v" using k by (simp add: load_Some v_def)
  note ep = end_pos_less [OF r n]
  from ge have c1: "((ucast (ucast shift + sz) :: cint) < 8) = False" by (simp add: ep)
  have f1: "\<And>b n. bit (to_uchar (to_int b AND NOT msk0)) n = (n < r' \<and> bit b n)"
    unfolding m r'_def by (rule clear_low_keep)
  from update_byte_pointwise [where f = "\<lambda>b. to_uchar (to_int b AND NOT msk0)"
      and G = "\<lambda>n old. n < r' \<and> old", OF e f1]
  obtain x1 where u1: "update_byte bs entry (\<lambda>b. to_uchar (to_int b AND NOT msk0)) = Some x1"
    and l1: "length x1 = length bs"
    and b1: "\<And>i. bit_at x1 i = (if i div 8 = entry then i mod 8 < r' \<and> bit_at bs i else bit_at bs i)"
    by blast
  have f2: "\<And>b n. bit (to_uchar (to_int b OR (push_bit (unat shift) (to_int v) AND msk0))) n
              = (bit b n \<or> (n < 8 \<and> r' \<le> n \<and> bit v (n - r')))"
    unfolding m r'_def by (rule or_shifted_masked)
  from e l1 have e': "entry < length x1" by simp
  from update_byte_pointwise [where f = "\<lambda>b. to_uchar (to_int b OR (push_bit (unat shift) (to_int v) AND msk0))"
      and G = "\<lambda>n old. old \<or> (n < 8 \<and> r' \<le> n \<and> bit v (n - r'))", OF e' f2]
  obtain x2 where u2: "update_byte x1 entry
        (\<lambda>b. to_uchar (to_int b OR (push_bit (unat shift) (to_int v) AND msk0))) = Some x2"
    and l2: "length x2 = length x1"
    and b2: "\<And>i. bit_at x2 i = (if i div 8 = entry
               then bit_at x1 i \<or> (i mod 8 < 8 \<and> r' \<le> i mod 8 \<and> bit v (i mod 8 - r'))
               else bit_at x1 i)"
    by blast
  from ge have c2: "(8 < (ucast (ucast shift + sz) :: cint)) = False" by (simp add: ep)
  have run: "write_tail shift msk0 seq bs entry k sz = Some x2"
    by (simp only: write_tail_def Let_def z c1 c2 if_True if_False u1 ld u2 Option.bind.bind_lunit)
  from ge have eq8: "r' + n' = 8" by (simp add: r'_def n'_def)
  then have le8: "r' + n' \<le> 8" by simp
  have "bit_at x2 i = (if 8 * entry + r' \<le> i \<and> i < 8 * entry + r' + n'
                then bit v (i - (8 * entry + r')) else bit_at bs i)" for i
    unfolding tail_window_iff [OF r8 le8] b2 b1 using window_offset(1) [of i entry r'] eq8
    by auto
  with run l1 l2 show ?thesis by (auto simp: r'_def n'_def v_def)
qed

lemma write_tail_C:
  assumes r: "unat shift < 8"
    and m: "msk0 = push_bit (unat shift) (NOT 0)"
    and n: "unat sz < 8" and nz: "sz \<noteq> 0"
    and ge: "8 < unat shift + unat sz"
    and e: "entry < length bs"
    and e1: "entry + 1 < length bs"
    and k: "k < length seq"
  shows "\<exists>bs'. write_tail shift msk0 seq bs entry k sz = Some bs' \<and> length bs' = length bs
           \<and> (\<forall>i. bit_at bs' i =
                 (if 8 * entry + unat shift \<le> i \<and> i < 8 * entry + unat shift + unat sz
                  then bit (seq ! k) (i - (8 * entry + unat shift)) else bit_at bs i))"
proof -
  define r' n' v where "r' = unat shift" and "n' = unat sz" and "v = seq ! k"
  have r8: "r' < 8" and n8: "n' < 8" using r n by (simp_all add: r'_def n'_def)
  from nz have z: "(sz = 0) = False" by simp
  have ld: "load seq k = Some v" using k by (simp add: load_Some v_def)
  note ep = end_pos_less [OF r n]
  from ge have c1: "((ucast (ucast shift + sz) :: cint) < 8) = False" by (simp add: ep)
  have f1: "\<And>b n. bit (to_uchar (to_int b AND NOT msk0)) n = (n < r' \<and> bit b n)"
    unfolding m r'_def by (rule clear_low_keep)
  from update_byte_pointwise [where f = "\<lambda>b. to_uchar (to_int b AND NOT msk0)"
      and G = "\<lambda>n old. n < r' \<and> old", OF e f1]
  obtain x1 where u1: "update_byte bs entry (\<lambda>b. to_uchar (to_int b AND NOT msk0)) = Some x1"
    and l1: "length x1 = length bs"
    and b1: "\<And>i. bit_at x1 i = (if i div 8 = entry then i mod 8 < r' \<and> bit_at bs i else bit_at bs i)"
    by blast
  have f2: "\<And>b n. bit (to_uchar (to_int b OR (push_bit (unat shift) (to_int v) AND msk0))) n
              = (bit b n \<or> (n < 8 \<and> r' \<le> n \<and> bit v (n - r')))"
    unfolding m r'_def by (rule or_shifted_masked)
  from e l1 have e': "entry < length x1" by simp
  from update_byte_pointwise [where f = "\<lambda>b. to_uchar (to_int b OR (push_bit (unat shift) (to_int v) AND msk0))"
      and G = "\<lambda>n old. old \<or> (n < 8 \<and> r' \<le> n \<and> bit v (n - r'))", OF e' f2]
  obtain x2 where u2: "update_byte x1 entry
        (\<lambda>b. to_uchar (to_int b OR (push_bit (unat shift) (to_int v) AND msk0))) = Some x2"
    and l2: "length x2 = length x1"
    and b2: "\<And>i. bit_at x2 i = (if i div 8 = entry
               then bit_at x1 i \<or> (i mod 8 < 8 \<and> r' \<le> i mod 8 \<and> bit v (i mod 8 - r'))
               else bit_at x1 i)"
    by blast
  from ge have c2: "(8 < (ucast (ucast shift + sz) :: cint)) = True" by (simp add: ep)
  from ge have gt: "8 < r' + n'" by (simp add: r'_def n'_def)
  from e1 l1 l2 have e1x: "entry + 1 < length x2" by simp
  define M where "M = drop_bit (unat (8 - sz)) msk0"
  have f3: "\<And>b n. bit (to_uchar (to_int b AND M)) n = (bit b n \<and> r' + n' \<le> n + 8)"
    unfolding M_def m unat_8_minus_sz [OF n] r'_def n'_def
    using r n ge by (intro allI keep_from_tail)
  from update_byte_pointwise [where f = "\<lambda>b. to_uchar (to_int b AND M)"
      and G = "\<lambda>n old. old \<and> r' + n' \<le> n + 8", OF e1x f3]
  obtain x3 where u3: "update_byte x2 (entry + 1) (\<lambda>b. to_uchar (to_int b AND M)) = Some x3"
    and l3: "length x3 = length x2"
    and b3: "\<And>i. bit_at x3 i = (if i div 8 = entry + 1
               then bit_at x2 i \<and> r' + n' \<le> i mod 8 + 8 else bit_at x2 i)"
    by blast
  have f4: "\<And>b n. bit (to_uchar (to_int b OR
                (drop_bit (unat (8 - shift)) (to_int v) AND NOT M))) n
            = (bit b n \<or> (n + 8 < r' + n' \<and> bit v (n + 8 - r')))"
    unfolding M_def m unat_8_minus_sz [OF n] unat_8_minus [OF r] r'_def n'_def
    using r n ge by (intro allI or_carry_tail)
  from e1x l3 have e1y: "entry + 1 < length x3" by simp
  from update_byte_pointwise [where f = "\<lambda>b. to_uchar (to_int b OR
        (drop_bit (unat (8 - shift)) (to_int v) AND NOT M))"
      and G = "\<lambda>n old. old \<or> (n + 8 < r' + n' \<and> bit v (n + 8 - r'))", OF e1y f4]
  obtain x4 where u4: "update_byte x3 (entry + 1) (\<lambda>b. to_uchar (to_int b OR
        (drop_bit (unat (8 - shift)) (to_int v) AND NOT M))) = Some x4"
    and l4: "length x4 = length x3"
    and b4: "\<And>i. bit_at x4 i = (if i div 8 = entry + 1
               then bit_at x3 i \<or> (i mod 8 + 8 < r' + n' \<and> bit v (i mod 8 + 8 - r'))
               else bit_at x3 i)"
    by blast
  have run: "write_tail shift msk0 seq bs entry k sz = Some x4"
    by (simp only: write_tail_def Let_def z c1 c2 if_True if_False M_def [symmetric]
        u1 ld u2 u3 u4 Option.bind.bind_lunit)
  have "bit_at x4 i = (if 8 * entry + r' \<le> i \<and> i < 8 * entry + r' + n'
                then bit v (i - (8 * entry + r')) else bit_at bs i)" for i
    unfolding tail_window_iff2 [OF r8 n8 gt] b4 b3 b2 b1
    using window_offset(1) [of i entry r'] window_offset(2) [of i entry r'] r8 n8 gt
    by auto
  with run l1 l2 l3 l4 show ?thesis by (auto simp: r'_def n'_def v_def)
qed

lemma write_tail_bits:
  assumes r: "unat shift < 8"
    and m: "msk0 = push_bit (unat shift) (NOT 0)"
    and n: "unat sz < 8"
    and fit: "8 * entry + unat shift + unat sz \<le> 8 * length bs"
    and src: "sz \<noteq> 0 \<Longrightarrow> k < length seq"
  shows "\<exists>bs'. write_tail shift msk0 seq bs entry k sz = Some bs' \<and> length bs' = length bs
           \<and> (\<forall>i. bit_at bs' i =
                 (if 8 * entry + unat shift \<le> i \<and> i < 8 * entry + unat shift + unat sz
                  then bit (seq ! k) (i - (8 * entry + unat shift)) else bit_at bs i))"
proof (cases "sz = 0")
  case True
  then show ?thesis by (auto simp: write_tail_def)
next
  case False
  then have npos: "0 < unat sz" by (simp add: unat_gt_0)
  with fit have e: "entry < length bs" by simp
  note k = src [OF False]
  consider "unat shift + unat sz < 8" | "unat shift + unat sz = 8" | "8 < unat shift + unat sz"
    by arith
  then show ?thesis
  proof cases
    case 1
    from write_tail_A [OF r n False 1 e k] show ?thesis .
  next
    case 2
    from write_tail_B [OF r m n False 2 e k] show ?thesis .
  next
    case 3
    with fit have e1: "entry + 1 < length bs" by simp
    from write_tail_C [OF r m n False 3 e e1 k] show ?thesis .
  qed
qed


lemma bitset_write_bits:
  assumes d: "data s = Some bs"
    and fit: "unat index + unat sz \<le> 8 * length bs"
    and src: "(unat sz + 7) div 8 \<le> length seq"
  shows "\<exists>bs'. bitset_write s index seq sz = Some (s\<lparr>data := Some bs'\<rparr>, sz)
           \<and> length bs' = length bs
           \<and> (\<forall>i. bit_at bs' i =
                 (if unat index \<le> i \<and> i < unat index + unat sz
                  then bit_at seq (i - unat index) else bit_at bs i))"
proof -
  define sh mk where "sh = (ucast (index AND 7) :: cint)"
    and "mk = (push_bit (unat sh) (NOT 0) :: cint)"
  define B N entry c where "B = unat index" and "N = unat sz" and "entry = B div 8"
    and "c = N div 8"
  have r: "unat sh = B mod 8" by (simp add: sh_def unat_shift B_def)
  then have r8: "unat sh < 8" by simp
  have base: "8 * entry + unat sh = B" by (simp add: r entry_def)
  have unf: "bitset_write s index seq sz =
      do {
        (bs1, entry1, k1, sz1) \<leftarrow> write_loop sh mk seq bs entry 0 sz;
        bs2 \<leftarrow> write_tail sh mk seq bs1 entry1 k1 sz1;
        Some (s\<lparr>data := Some bs2\<rparr>, sz)
      }"
    by (simp only: bitset_write_def d option.case Let_def byte_at_nat sh_def mk_def entry_def B_def)
  have fit0: "8 * entry + unat sh + unat sz \<le> 8 * length bs"
    using fit by (simp only: base B_def [symmetric])
  have cle: "c \<le> (N + 7) div 8" unfolding c_def by (rule div_le_mono) simp
  with src have src0: "0 + unat sz div 8 \<le> length seq" by (simp add: c_def N_def)
  from write_loop_bits [OF r8 mk_def fit0 src0]
  obtain bs1 sz1 where lo: "write_loop sh mk seq bs entry 0 sz = Some (bs1, entry + c, c, sz1)"
    and s1: "unat sz1 = N mod 8"
    and l1: "length bs1 = length bs"
    and b1: "\<And>i. bit_at bs1 i = (if B \<le> i \<and> i < B + 8 * c then bit_at seq (i - B) else bit_at bs i)"
    unfolding base N_def [symmetric] c_def [symmetric] by auto
  have n1: "unat sz1 < 8" by (simp add: s1)
  have base1: "8 * (entry + c) + unat sh = B + 8 * c" using base by simp
  have NN: "8 * c + N mod 8 = N" by (simp add: c_def)
  have fit1: "8 * (entry + c) + unat sh + unat sz1 \<le> 8 * length bs1"
    using fit NN by (simp only: base1 s1 l1 B_def [symmetric] N_def [symmetric])
  have src1: "c < length seq" if "sz1 \<noteq> 0"
  proof -
    from that have "0 < N mod 8" by (simp add: s1 [symmetric] unat_gt_0)
    then have "N + 7 = 8 * (c + 1) + (N mod 8 - 1)" using NN by simp
    then have "(N + 7) div 8 = c + 1 + (N mod 8 - 1) div 8" by (simp only: div_mult_self4)
    with src show ?thesis by (simp add: N_def)
  qed
  from write_tail_bits [OF r8 mk_def n1 fit1 src1]
  obtain bs2 where tl: "write_tail sh mk seq bs1 (entry + c) c sz1 = Some bs2"
    and l2: "length bs2 = length bs1"
    and b2: "\<And>i. bit_at bs2 i = (if B + 8 * c \<le> i \<and> i < B + 8 * c + N mod 8
               then bit (seq ! c) (i - (B + 8 * c)) else bit_at bs1 i)"
    unfolding base1 s1 by auto
  have run: "bitset_write s index seq sz = Some (s\<lparr>data := Some bs2\<rparr>, sz)"
    by (simp only: unf lo tl Option.bind.bind_lunit prod.case)
  have bits: "bit_at bs2 i = (if B \<le> i \<and> i < B + N then bit_at seq (i - B) else bit_at bs i)" for i
  proof (cases "B + 8 * c \<le> i \<and> i < B + 8 * c + N mod 8")
    case True
    then have "i - (B + 8 * c) < 8" by arith
    then have "bit (seq ! c) (i - (B + 8 * c)) = bit_at seq (8 * c + (i - (B + 8 * c)))"
      by (simp add: bit_at_byte)
    moreover from True have "8 * c + (i - (B + 8 * c)) = i - B" by arith
    ultimately show ?thesis using True NN by (simp add: b2)
  next
    case False
    with NN show ?thesis by (auto simp: b2 b1)
  qed
  from run l1 l2 bits show ?thesis
    unfolding B_def N_def by (intro exI [of _ bs2]) simp
qed

lemma bit_at_take: "i div 8 < n \<Longrightarrow> bit_at (take n seq) i = bit_at seq i"
  by (simp add: bit_at_def)

text \<open>
  C4: for a well-formed bitset, \<open>index + count \<le> capacity\<close> and a source of at least
  \<open>ceil(count / 8)\<close> bytes, \<^verbatim>\<open>bitset_write\<close> succeeds and returns \<open>count\<close>; capacity and
  size stay; every bit of \<open>[index, index + count)\<close> becomes the source bit at the same
  offset and every other bit of the buffer keeps its value, whether or not \<open>count\<close> is a
  multiple of 8. The source is read through bounds-checked loads, and the call on the
  first \<open>ceil(count / 8)\<close> source bytes alone gives the same result: no byte beyond
  them is read.
\<close>

theorem bitset_write_frame:
  assumes wf: "wf_bitset s bs"
    and fit: "unat index + unat count \<le> unat (capacity s)"
    and src: "(unat count + 7) div 8 \<le> length seq"
  shows "\<exists>bs'. bitset_write s index seq count = Some (s\<lparr>data := Some bs'\<rparr>, count)
           \<and> length bs' = length bs
           \<and> (\<forall>i < 8 * length bs. bit_at bs' i =
                 (if unat index \<le> i \<and> i < unat index + unat count
                  then bit_at seq (i - unat index) else bit_at bs i))
           \<and> bitset_write s index (take ((unat count + 7) div 8) seq) count
                 = bitset_write s index seq count"
proof -
  define n where "n = (unat count + 7) div 8"
  from wf have d: "data s = Some bs" and c: "8 * length bs = unat (capacity s)"
    by (simp_all add: wf_bitset_def)
  from fit c have fit': "unat index + unat count \<le> 8 * length bs" by simp
  from bitset_write_bits [OF d fit' src]
  obtain bs1 where w1: "bitset_write s index seq count = Some (s\<lparr>data := Some bs1\<rparr>, count)"
    and l1: "length bs1 = length bs"
    and b1: "\<And>i. bit_at bs1 i = (if unat index \<le> i \<and> i < unat index + unat count
                  then bit_at seq (i - unat index) else bit_at bs i)"
    by blast
  from src have src2: "(unat count + 7) div 8 \<le> length (take n seq)" by (simp add: n_def)
  from bitset_write_bits [OF d fit' src2]
  obtain bs2 where w2: "bitset_write s index (take n seq) count = Some (s\<lparr>data := Some bs2\<rparr>, count)"
    and l2: "length bs2 = length bs"
    and b2: "\<And>i. bit_at bs2 i = (if unat index \<le> i \<and> i < unat index + unat count
                  then bit_at (take n seq) (i - unat index) else bit_at bs i)"
    by blast
  have "bit_at (take n seq) j = bit_at seq j" if "j < unat count" for j
  proof -
    from that have "j + 8 \<le> unat count + 7" by simp
    then have "(j + 8) div 8 \<le> (unat count + 7) div 8" by (rule div_le_mono)
    then have "j div 8 < n" unfolding n_def by simp
    then show ?thesis by (rule bit_at_take)
  qed
  note tk = this
  have "bit_at bs2 i = bit_at bs1 i" for i
  proof (cases "unat index \<le> i \<and> i < unat index + unat count")
    case True
    then have "i - unat index < unat count" by arith
    from tk [OF this] True show ?thesis by (simp add: b1 b2)
  next
    case False
    then show ?thesis by (auto simp: b1 b2)
  qed
  with l1 l2 have "bs2 = bs1" by (intro bit_at_eqI) simp_all
  with w1 w2 l1 b1 show ?thesis unfolding n_def by (intro exI [of _ bs1]) simp
qed

text \<open>
  The theorem for the 12 bits \<open>0xFB3\<close> written at bit 3 of \<open>demo_set\<close>: the buffer
  becomes \<open>0x9A\<close>, \<open>0xFD\<close>.
\<close>

theorem bitset_write_frame_witness:
  "wf_bitset demo_set demo_bytes
   \<and> unat (3 :: size_t) + unat (12 :: size_t) \<le> unat (capacity demo_set)
   \<and> (unat (12 :: size_t) + 7) div 8 \<le> length demo_seq
   \<and> (\<exists>bs'. bitset_write demo_set 3 demo_seq 12 = Some (demo_set\<lparr>data := Some bs'\<rparr>, 12)
           \<and> length bs' = length demo_bytes
           \<and> (\<forall>i < 8 * length demo_bytes. bit_at bs' i =
                 (if unat (3 :: size_t) \<le> i \<and> i < unat (3 :: size_t) + unat (12 :: size_t)
                  then bit_at demo_seq (i - unat (3 :: size_t)) else bit_at demo_bytes i))
           \<and> bitset_write demo_set 3 (take ((unat (12 :: size_t) + 7) div 8) demo_seq) 12
                 = bitset_write demo_set 3 demo_seq 12)
   \<and> bitset_write demo_set 3 demo_seq 12 = Some (demo_set\<lparr>data := Some [0x9A, 0xFD]\<rparr>, 12)"
proof -
  have wf: "wf_bitset demo_set demo_bytes"
    by (simp add: wf_bitset_def demo_set_def demo_bytes_def)
  have fit: "unat (3 :: size_t) + unat (12 :: size_t) \<le> unat (capacity demo_set)"
    by (simp add: demo_set_def)
  have src: "(unat (12 :: size_t) + 7) div 8 \<le> length demo_seq"
    by (simp add: demo_seq_def)
  have ev: "bitset_write demo_set 3 demo_seq 12 = Some (demo_set\<lparr>data := Some [0x9A, 0xFD]\<rparr>, 12)"
    by code_simp
  from bitset_write_frame [OF wf fit src] wf fit src ev show ?thesis by blast
qed

section \<open>Bulk read: what the code does\<close>

lemma or_extract:
  "bit (to_uchar (to_int d OR drop_bit r (to_int b AND push_bit r (NOT 0)))) n
     \<longleftrightarrow> bit d n \<or> bit b (n + r)"
  by (auto simp: to_uchar_def to_int_def bit_simps add.commute dest: bit8_lt)

lemma or_extract_next:
  "r < 8 \<Longrightarrow>
   bit (to_uchar (to_int d OR push_bit (8 - r) (to_int b AND NOT (push_bit r (NOT 0))))) n
     \<longleftrightarrow> bit d n \<or> (n < 8 \<and> 8 \<le> n + r \<and> bit b (n + r - 8))"
  by (auto simp: to_uchar_def to_int_def bit_simps add.commute dest: bit8_lt)

lemma or_extract_field:
  "r + m < 8 \<Longrightarrow>
   bit (to_uchar (to_int d OR drop_bit r (to_int b AND push_bit r (NOT (push_bit m (NOT 0)))))) n
     \<longleftrightarrow> bit d n \<or> (n < m \<and> bit b (n + r))"
  by (auto simp: to_uchar_def to_int_def bit_simps add.commute dest: bit8_lt)

lemma or_extract_next_tail:
  "r < 8 \<Longrightarrow> m < 8 \<Longrightarrow> 8 < r + m \<Longrightarrow>
   bit (to_uchar (to_int d OR push_bit (8 - r)
          (to_int b AND NOT (drop_bit (8 - m) (push_bit r (NOT 0)))))) n
     \<longleftrightarrow> bit d n \<or> (n < m \<and> 8 \<le> n + r \<and> bit b (n + r - 8))"
  by (auto simp: to_uchar_def to_int_def bit_simps add.commute dest: bit8_lt)

lemma bit_at_split:
  assumes "r < 8" "t < 8"
  shows "bit_at bs (8 * p + r + t)
           = (if r + t < 8 then bit (bs ! p) (r + t) else bit (bs ! (p + 1)) (r + t - 8))"
proof (cases "r + t < 8")
  case True
  then have "bit_at bs (8 * p + (r + t)) = bit (bs ! p) (r + t)" by (rule bit_at_byte)
  with True show ?thesis by (simp add: add.assoc)
next
  case False
  with assms have "r + t - 8 < 8" by simp
  then have "bit_at bs (8 * (p + 1) + (r + t - 8)) = bit (bs ! (p + 1)) (r + t - 8)"
    by (rule bit_at_byte)
  moreover from False have "8 * (p + 1) + (r + t - 8) = 8 * p + r + t" by simp
  ultimately show ?thesis using False by (simp add: add.assoc)
qed


lemma read_step_bits:
  assumes r: "unat shift < 8"
    and m: "msk = push_bit (unat shift) (NOT 0)"
    and e: "entry < length bs"
    and e1: "shift \<noteq> 0 \<Longrightarrow> entry + 1 < length bs"
    and k: "k < length seq"
  shows "\<exists>seq'. read_step shift msk bs seq entry k = Some seq' \<and> length seq' = length seq
           \<and> (\<forall>j. bit_at seq' j =
                 (if j div 8 = k
                  then bit_at seq j \<or> bit_at bs (8 * entry + unat shift + j mod 8)
                  else bit_at seq j))"
proof -
  define r' b where "r' = unat shift" and "b = bs ! entry"
  have r8: "r' < 8" using r by (simp add: r'_def)
  have ld: "load bs entry = Some b" using e by (simp add: load_Some b_def)
  have f1: "\<And>d n. bit (to_uchar (to_int d OR drop_bit (unat shift) (to_int b AND msk))) n
              = (bit d n \<or> bit b (n + r'))"
    unfolding m r'_def by (rule or_extract)
  from update_byte_pointwise [where f = "\<lambda>d. to_uchar (to_int d OR drop_bit (unat shift) (to_int b AND msk))"
      and G = "\<lambda>n old. old \<or> bit b (n + r')", OF k f1]
  obtain x1 where u1: "update_byte seq k
        (\<lambda>d. to_uchar (to_int d OR drop_bit (unat shift) (to_int b AND msk))) = Some x1"
    and l1: "length x1 = length seq"
    and b1: "\<And>j. bit_at x1 j = (if j div 8 = k then bit_at seq j \<or> bit b (j mod 8 + r') else bit_at seq j)"
    by blast
  show ?thesis
  proof (cases "shift = 0")
    case True
    then have r0: "r' = 0" by (simp add: r'_def)
    from True have ne: "(shift \<noteq> 0) = False" by simp
    have run: "read_step shift msk bs seq entry k = Some x1"
      by (simp only: read_step_def ld u1 Option.bind.bind_lunit ne if_False)
    have "bit_at x1 j = (if j div 8 = k then bit_at seq j \<or> bit_at bs (8 * entry + r' + j mod 8)
                         else bit_at seq j)" for j
      using bit_at_byte [of "j mod 8" bs entry] by (simp add: b1 r0 b_def)
    with run l1 show ?thesis by (auto simp: r'_def)
  next
    case False
    define b' where "b' = bs ! (entry + 1)"
    have ld2: "load bs (entry + 1) = Some b'" using e1 [OF False] by (simp add: load_Some b'_def)
    have f2: "\<And>d n. bit (to_uchar (to_int d OR
                  push_bit (unat (8 - shift)) (to_int b' AND NOT msk))) n
              = (bit d n \<or> (n < 8 \<and> 8 \<le> n + r' \<and> bit b' (n + r' - 8)))"
      unfolding m unat_8_minus [OF r] r'_def using r by (intro allI or_extract_next)
    from k l1 have k': "k < length x1" by simp
    from update_byte_pointwise [where f = "\<lambda>d. to_uchar (to_int d OR
          push_bit (unat (8 - shift)) (to_int b' AND NOT msk))"
        and G = "\<lambda>n old. old \<or> (n < 8 \<and> 8 \<le> n + r' \<and> bit b' (n + r' - 8))", OF k' f2]
    obtain x2 where u2: "update_byte x1 k (\<lambda>d. to_uchar (to_int d OR
          push_bit (unat (8 - shift)) (to_int b' AND NOT msk))) = Some x2"
      and l2: "length x2 = length x1"
      and b2: "\<And>j. bit_at x2 j = (if j div 8 = k
                 then bit_at x1 j \<or> (j mod 8 < 8 \<and> 8 \<le> j mod 8 + r' \<and> bit b' (j mod 8 + r' - 8))
                 else bit_at x1 j)"
      by blast
    have run: "read_step shift msk bs seq entry k = Some x2"
      by (simp only: read_step_def ld u1 ld2 u2 Option.bind.bind_lunit False not_False_eq_True if_True)
    have "bit_at x2 j = (if j div 8 = k then bit_at seq j \<or> bit_at bs (8 * entry + r' + j mod 8)
                         else bit_at seq j)" for j
    proof -
      have t8: "j mod 8 < 8" by simp
      have "bit b (j mod 8 + r') \<Longrightarrow> j mod 8 + r' < 8" by (rule bit8_lt)
      then show ?thesis
        unfolding b2 b1 bit_at_split [OF r8 t8] b_def [symmetric] b'_def [symmetric]
        by (auto simp: add.commute)
    qed
    with run l1 l2 show ?thesis by (auto simp: r'_def)
  qed
qed


lemma byte_window_iff:
  "8 * k \<le> (j :: nat) \<and> j < 8 * k + 8 \<longleftrightarrow> j div 8 = k"
proof -
  define q t where "q = j div 8" and "t = j mod 8"
  have "j = 8 * q + t" "t < 8" by (simp_all add: q_def t_def)
  then have "8 * k \<le> j \<and> j < 8 * k + 8 \<longleftrightarrow> q = k" by arith
  then show ?thesis by (simp only: q_def)
qed

lemma read_loop_bits:
  assumes r: "unat shift < 8"
    and m: "msk = push_bit (unat shift) (NOT 0)"
    and fit: "8 * entry + unat shift + unat sz \<le> 8 * length bs"
    and dst: "k + unat sz div 8 \<le> length seq"
  shows "\<exists>seq' sz'. read_loop shift msk bs seq entry k sz
             = Some (seq', entry + unat sz div 8, k + unat sz div 8, sz')
           \<and> unat sz' = unat sz mod 8 \<and> length seq' = length seq
           \<and> (\<forall>j. bit_at seq' j =
                 (if 8 * k \<le> j \<and> j < 8 * k + 8 * (unat sz div 8)
                  then bit_at seq j \<or> bit_at bs (8 * entry + unat shift + (j - 8 * k))
                  else bit_at seq j))"
  using assms
proof (induction shift msk bs seq entry k sz rule: read_loop.induct)
  case (1 shift msk bs seq entry k sz)
  define r' n where "r' = unat shift" and "n = unat sz"
  show ?case
  proof (cases "drop_bit 3 sz = 0")
    case True
    then have small: "unat sz < 8" by (simp add: drop_bit3_eq_0)
    have stop: "read_loop shift msk bs seq entry k sz = Some (seq, entry, k, sz)"
      by (subst read_loop.simps) (simp add: True)
    from small have "unat sz div 8 = 0" "unat sz mod 8 = unat sz" by simp_all
    then show ?thesis by (simp only: stop) auto
  next
    case False
    then have ge: "8 \<le> n" by (simp add: drop_bit3_eq_0 n_def)
    then have c1: "1 \<le> n div 8" by simp
    from ge have sub: "unat (sz - 8) = n - 8" by (simp add: unat_sub8 n_def)
    from "1.prems"(3) ge have e: "entry < length bs" by (simp add: n_def)
    have e1: "entry + 1 < length bs" if "shift \<noteq> 0"
    proof -
      from that have "0 < unat shift" by (simp add: unat_gt_0)
      with "1.prems"(3) ge show ?thesis by (simp add: n_def)
    qed
    from "1.prems"(4) c1 have k: "k < length seq" by (simp add: n_def)
    from read_step_bits [OF "1.prems"(1) "1.prems"(2) e e1 k]
    obtain x where st: "read_step shift msk bs seq entry k = Some x"
      and lx: "length x = length seq"
      and bx: "\<And>j. bit_at x j = (if j div 8 = k
                  then bit_at seq j \<or> bit_at bs (8 * entry + r' + j mod 8) else bit_at seq j)"
      unfolding r'_def by blast
    have fit': "8 * (entry + 1) + unat shift + unat (sz - 8) \<le> 8 * length bs"
      using "1.prems"(3) ge by (simp add: sub n_def)
    have dv: "(n - 8) div 8 = n div 8 - 1" using ge le_div_geq [of 8 n] by simp
    have dst': "k + 1 + unat (sz - 8) div 8 \<le> length x"
      using "1.prems"(4) c1 by (simp add: sub dv lx n_def)
    from "1.IH" [OF False st "1.prems"(1) "1.prems"(2) fit' dst']
    obtain seq' sz' where rec: "read_loop shift msk bs x (entry + 1) (k + 1) (sz - 8)
          = Some (seq', entry + 1 + (n - 8) div 8, k + 1 + (n - 8) div 8, sz')"
      and sz': "unat sz' = (n - 8) mod 8"
      and lb: "length seq' = length x"
      and bb: "\<And>j. bit_at seq' j =
                 (if 8 * (k + 1) \<le> j \<and> j < 8 * (k + 1) + 8 * ((n - 8) div 8)
                  then bit_at x j \<or> bit_at bs (8 * (entry + 1) + r' + (j - 8 * (k + 1)))
                  else bit_at x j)"
      unfolding sub r'_def by blast
    have "read_loop shift msk bs seq entry k sz
          = Some (seq', entry + 1 + (n - 8) div 8, k + 1 + (n - 8) div 8, sz')"
      by (subst read_loop.simps) (simp only: False if_False st Option.bind.bind_lunit rec)
    with c1 have run: "read_loop shift msk bs seq entry k sz
          = Some (seq', entry + n div 8, k + n div 8, sz')"
      by (simp add: dv)
    have md: "(n - 8) mod 8 = n mod 8" using ge le_mod_geq [of 8 n] by simp
    have bits: "bit_at seq' j =
                 (if 8 * k \<le> j \<and> j < 8 * k + 8 * (n div 8)
                  then bit_at seq j \<or> bit_at bs (8 * entry + r' + (j - 8 * k))
                  else bit_at seq j)" for j
    proof (cases "j div 8 = k")
      case True
      then have w: "8 * k \<le> j \<and> j < 8 * k + 8" by (simp add: byte_window_iff)
      have "j mod 8 = j - 8 * k" using True by (metis minus_mult_div_eq_mod)
      with True w c1 show ?thesis by (simp add: bb bx)
    next
      case False
      then have nw: "\<not> (8 * k \<le> j \<and> j < 8 * k + 8)" by (simp add: byte_window_iff)
      have "8 * (entry + 1) + r' + (j - 8 * (k + 1)) = 8 * entry + r' + (j - 8 * k)"
        if "8 * (k + 1) \<le> j"
        using that by arith
      with False nw c1 show ?thesis by (auto simp: bb bx dv)
    qed
    from sz' md have szm: "unat sz' = n mod 8" by simp
    from lb lx have len: "length seq' = length seq" by simp
    from run szm len bits show ?thesis
      unfolding n_def r'_def by (intro exI [of _ seq'] exI [of _ sz']) simp
  qed
qed

lemma read_tail_A:
  assumes r: "unat shift < 8"
    and n: "unat sz < 8" and nz: "sz \<noteq> 0"
    and lt: "unat shift + unat sz < 8"
    and e: "entry < length bs"
    and k: "k < length seq"
  shows "\<exists>seq'. read_tail shift msk0 bs seq entry k sz = Some seq' \<and> length seq' = length seq
           \<and> (\<forall>j. bit_at seq' j =
                 (if j div 8 = k \<and> j mod 8 < unat sz
                  then bit_at seq j \<or> bit_at bs (8 * entry + unat shift + j mod 8)
                  else bit_at seq j))"
proof -
  define r' n' b where "r' = unat shift" and "n' = unat sz" and "b = bs ! entry"
  have r8: "r' < 8" and n8: "n' < 8" using r n by (simp_all add: r'_def n'_def)
  from nz have z: "(sz = 0) = False" by simp
  have ld: "load bs entry = Some b" using e by (simp add: load_Some b_def)
  note ep = end_pos_less [OF r n]
  from lt have c1: "((ucast (ucast shift + sz) :: cint) < 8) = True"
      and c2: "(8 < (ucast (ucast shift + sz) :: cint)) = False"
      by (simp_all add: ep)
  define F where "F = (push_bit (unat shift) (NOT (push_bit (unat sz) (NOT 0))) :: cint)"
  have f1: "\<And>d n. bit (to_uchar (to_int d OR drop_bit (unat shift) (to_int b AND F))) n
                = (bit d n \<or> (n < n' \<and> bit b (n + r')))"
    unfolding r'_def n'_def F_def using lt by (intro allI or_extract_field)
  from update_byte_pointwise [where f = "\<lambda>d. to_uchar (to_int d OR drop_bit (unat shift) (to_int b AND F))"
        and G = "\<lambda>n old. old \<or> (n < n' \<and> bit b (n + r'))", OF k f1]
  obtain x1 where u1: "update_byte seq k
          (\<lambda>d. to_uchar (to_int d OR drop_bit (unat shift) (to_int b AND F))) = Some x1"
      and l1: "length x1 = length seq"
      and b1: "\<And>j. bit_at x1 j = (if j div 8 = k
                 then bit_at seq j \<or> (j mod 8 < n' \<and> bit b (j mod 8 + r')) else bit_at seq j)"
      by blast
  have run: "read_tail shift msk0 bs seq entry k sz = Some x1"
      by (simp only: read_tail_def Let_def z c1 c2 if_True if_False F_def [symmetric] ld u1
          Option.bind.bind_lunit)
  have "bit_at x1 j = (if j div 8 = k \<and> j mod 8 < n'
                  then bit_at seq j \<or> bit_at bs (8 * entry + r' + j mod 8)
                  else bit_at seq j)" for j
  proof -
    have t8: "j mod 8 < 8" by simp
    have "r' + j mod 8 < 8" if "j mod 8 < n'" using that lt by (simp add: r'_def n'_def)
    then show ?thesis
      unfolding b1 bit_at_split [OF r8 t8] b_def [symmetric]
      by (auto simp: add.commute)
  qed
  with run l1 show ?thesis by (auto simp: r'_def n'_def)
qed

lemma read_tail_B:
  assumes r: "unat shift < 8"
    and m: "msk0 = push_bit (unat shift) (NOT 0)"
    and n: "unat sz < 8" and nz: "sz \<noteq> 0"
    and ge: "unat shift + unat sz = 8"
    and e: "entry < length bs"
    and k: "k < length seq"
  shows "\<exists>seq'. read_tail shift msk0 bs seq entry k sz = Some seq' \<and> length seq' = length seq
           \<and> (\<forall>j. bit_at seq' j =
                 (if j div 8 = k \<and> j mod 8 < unat sz
                  then bit_at seq j \<or> bit_at bs (8 * entry + unat shift + j mod 8)
                  else bit_at seq j))"
proof -
  define r' n' b where "r' = unat shift" and "n' = unat sz" and "b = bs ! entry"
  have r8: "r' < 8" and n8: "n' < 8" using r n by (simp_all add: r'_def n'_def)
  from nz have z: "(sz = 0) = False" by simp
  have ld: "load bs entry = Some b" using e by (simp add: load_Some b_def)
  note ep = end_pos_less [OF r n]
  from ge have c1: "((ucast (ucast shift + sz) :: cint) < 8) = False"
      and c2: "(8 < (ucast (ucast shift + sz) :: cint)) = False"
      by (simp_all add: ep)
  have f1: "\<And>d n. bit (to_uchar (to_int d OR drop_bit (unat shift) (to_int b AND msk0))) n
              = (bit d n \<or> bit b (n + r'))"
    unfolding m r'_def by (rule or_extract)
  from update_byte_pointwise [where f = "\<lambda>d. to_uchar (to_int d OR drop_bit (unat shift) (to_int b AND msk0))"
      and G = "\<lambda>n old. old \<or> bit b (n + r')", OF k f1]
  obtain x1 where u1: "update_byte seq k
        (\<lambda>d. to_uchar (to_int d OR drop_bit (unat shift) (to_int b AND msk0))) = Some x1"
    and l1: "length x1 = length seq"
    and b1: "\<And>j. bit_at x1 j = (if j div 8 = k then bit_at seq j \<or> bit b (j mod 8 + r') else bit_at seq j)"
    by blast
  have run: "read_tail shift msk0 bs seq entry k sz = Some x1"
      by (simp only: read_tail_def Let_def z c1 c2 if_True if_False ld u1 Option.bind.bind_lunit)
  have "bit_at x1 j = (if j div 8 = k \<and> j mod 8 < n'
                  then bit_at seq j \<or> bit_at bs (8 * entry + r' + j mod 8)
                  else bit_at seq j)" for j
  proof -
    have t8: "j mod 8 < 8" by simp
    have eq8: "r' + n' = 8" using ge by (simp add: r'_def n'_def)
    have "bit b (j mod 8 + r') \<Longrightarrow> j mod 8 + r' < 8" by (rule bit8_lt)
    with eq8 show ?thesis
      unfolding b1 bit_at_split [OF r8 t8] b_def [symmetric]
      by (auto simp: add.commute)
  qed
  with run l1 show ?thesis by (auto simp: r'_def n'_def)
qed


lemma read_tail_C:
  assumes r: "unat shift < 8"
    and m: "msk0 = push_bit (unat shift) (NOT 0)"
    and n: "unat sz < 8" and nz: "sz \<noteq> 0"
    and ge: "8 < unat shift + unat sz"
    and e: "entry < length bs"
    and e1: "entry + 1 < length bs"
    and k: "k < length seq"
  shows "\<exists>seq'. read_tail shift msk0 bs seq entry k sz = Some seq' \<and> length seq' = length seq
           \<and> (\<forall>j. bit_at seq' j =
                 (if j div 8 = k \<and> j mod 8 < unat sz
                  then bit_at seq j \<or> bit_at bs (8 * entry + unat shift + j mod 8)
                  else bit_at seq j))"
proof -
  define r' n' b b' where "r' = unat shift" and "n' = unat sz" and "b = bs ! entry"
    and "b' = bs ! (entry + 1)"
  have r8: "r' < 8" and n8: "n' < 8" using r n by (simp_all add: r'_def n'_def)
  from nz have z: "(sz = 0) = False" by simp
  have ld: "load bs entry = Some b" using e by (simp add: load_Some b_def)
  have ld2: "load bs (entry + 1) = Some b'" using e1 by (simp add: load_Some b'_def)
  note ep = end_pos_less [OF r n]
  from ge have c1: "((ucast (ucast shift + sz) :: cint) < 8) = False"
      and c2: "(8 < (ucast (ucast shift + sz) :: cint)) = True"
      by (simp_all add: ep)
  from ge have gt: "8 < r' + n'" by (simp add: r'_def n'_def)
  have f1: "\<And>d n. bit (to_uchar (to_int d OR drop_bit (unat shift) (to_int b AND msk0))) n
              = (bit d n \<or> bit b (n + r'))"
    unfolding m r'_def by (rule or_extract)
  from update_byte_pointwise [where f = "\<lambda>d. to_uchar (to_int d OR drop_bit (unat shift) (to_int b AND msk0))"
      and G = "\<lambda>n old. old \<or> bit b (n + r')", OF k f1]
  obtain x1 where u1: "update_byte seq k
        (\<lambda>d. to_uchar (to_int d OR drop_bit (unat shift) (to_int b AND msk0))) = Some x1"
    and l1: "length x1 = length seq"
    and b1: "\<And>j. bit_at x1 j = (if j div 8 = k then bit_at seq j \<or> bit b (j mod 8 + r') else bit_at seq j)"
    by blast
  define M where "M = drop_bit (unat (8 - sz)) msk0"
  have f2: "\<And>d n. bit (to_uchar (to_int d OR
                push_bit (unat (8 - shift)) (to_int b' AND NOT M))) n
            = (bit d n \<or> (n < n' \<and> 8 \<le> n + r' \<and> bit b' (n + r' - 8)))"
    unfolding M_def m unat_8_minus_sz [OF n] unat_8_minus [OF r] r'_def n'_def
    using r n ge by (intro allI or_extract_next_tail)
  from k l1 have k': "k < length x1" by simp
  from update_byte_pointwise [where f = "\<lambda>d. to_uchar (to_int d OR
        push_bit (unat (8 - shift)) (to_int b' AND NOT M))"
      and G = "\<lambda>n old. old \<or> (n < n' \<and> 8 \<le> n + r' \<and> bit b' (n + r' - 8))", OF k' f2]
  obtain x2 where u2: "update_byte x1 k (\<lambda>d. to_uchar (to_int d OR
        push_bit (unat (8 - shift)) (to_int b' AND NOT M))) = Some x2"
    and l2: "length x2 = length x1"
    and b2: "\<And>j. bit_at x2 j = (if j div 8 = k
               then bit_at x1 j \<or> (j mod 8 < n' \<and> 8 \<le> j mod 8 + r' \<and> bit b' (j mod 8 + r' - 8))
               else bit_at x1 j)"
    by blast
  have run: "read_tail shift msk0 bs seq entry k sz = Some x2"
    by (simp only: read_tail_def Let_def z c1 c2 if_True if_False M_def [symmetric]
        ld u1 ld2 u2 Option.bind.bind_lunit)
  have "bit_at x2 j = (if j div 8 = k \<and> j mod 8 < n'
                then bit_at seq j \<or> bit_at bs (8 * entry + r' + j mod 8)
                else bit_at seq j)" for j
  proof -
    have t8: "j mod 8 < 8" by simp
    have lo: "bit b (j mod 8 + r') \<Longrightarrow> j mod 8 + r' < 8" by (rule bit8_lt)
    have "j mod 8 < n'" if "j mod 8 + r' < 8" using that gt by simp
    with lo show ?thesis
      unfolding b2 b1 bit_at_split [OF r8 t8] b_def [symmetric] b'_def [symmetric]
      by (auto simp: add.commute)
  qed
  with run l1 l2 show ?thesis by (auto simp: r'_def n'_def)
qed

lemma read_tail_bits:
  assumes r: "unat shift < 8"
    and m: "msk0 = push_bit (unat shift) (NOT 0)"
    and n: "unat sz < 8"
    and fit: "8 * entry + unat shift + unat sz \<le> 8 * length bs"
    and dst: "sz \<noteq> 0 \<Longrightarrow> k < length seq"
  shows "\<exists>seq'. read_tail shift msk0 bs seq entry k sz = Some seq' \<and> length seq' = length seq
           \<and> (\<forall>j. bit_at seq' j =
                 (if j div 8 = k \<and> j mod 8 < unat sz
                  then bit_at seq j \<or> bit_at bs (8 * entry + unat shift + j mod 8)
                  else bit_at seq j))"
proof (cases "sz = 0")
  case True
  then show ?thesis by (auto simp: read_tail_def)
next
  case False
  then have npos: "0 < unat sz" by (simp add: unat_gt_0)
  with fit have e: "entry < length bs" by simp
  note k = dst [OF False]
  consider "unat shift + unat sz < 8" | "unat shift + unat sz = 8" | "8 < unat shift + unat sz"
    by arith
  then show ?thesis
  proof cases
    case 1
    from read_tail_A [OF r n False 1 e k] show ?thesis .
  next
    case 2
    from read_tail_B [OF r m n False 2 e k] show ?thesis .
  next
    case 3
    with fit have e1: "entry + 1 < length bs" by simp
    from read_tail_C [OF r m n False 3 e e1 k] show ?thesis .
  qed
qed

lemma bitset_read_bits:
  assumes d: "data s = Some bs"
    and fit: "unat index + unat sz \<le> 8 * length bs"
    and dst: "(unat sz + 7) div 8 \<le> length seq"
  shows "\<exists>seq'. bitset_read s index seq sz = Some (seq', sz)
           \<and> length seq' = length seq
           \<and> (\<forall>j. bit_at seq' j = (bit_at seq j \<or> (j < unat sz \<and> bit_at bs (unat index + j))))"
proof -
  define sh mk where "sh = (ucast (index AND 7) :: cint)"
    and "mk = (push_bit (unat sh) (NOT 0) :: cint)"
  define B N entry c where "B = unat index" and "N = unat sz" and "entry = B div 8"
    and "c = N div 8"
  have r: "unat sh = B mod 8" by (simp add: sh_def unat_shift B_def)
  then have r8: "unat sh < 8" by simp
  have base: "8 * entry + unat sh = B" by (simp add: r entry_def)
  have unf: "bitset_read s index seq sz =
      do {
        (seq1, entry1, k1, sz1) \<leftarrow> read_loop sh mk bs seq entry 0 sz;
        seq2 \<leftarrow> read_tail sh mk bs seq1 entry1 k1 sz1;
        Some (seq2, sz)
      }"
    by (simp only: bitset_read_def d option.case Let_def byte_at_nat sh_def mk_def entry_def B_def)
  have fit0: "8 * entry + unat sh + unat sz \<le> 8 * length bs"
    using fit by (simp only: base B_def [symmetric])
  have cle: "c \<le> (N + 7) div 8" unfolding c_def by (rule div_le_mono) simp
  with dst have dst0: "0 + unat sz div 8 \<le> length seq" by (simp add: c_def N_def)
  from read_loop_bits [OF r8 mk_def fit0 dst0]
  obtain seq1 sz1 where lo: "read_loop sh mk bs seq entry 0 sz = Some (seq1, entry + c, c, sz1)"
    and s1: "unat sz1 = N mod 8"
    and l1: "length seq1 = length seq"
    and b1: "\<And>j. bit_at seq1 j = (if j < 8 * c then bit_at seq j \<or> bit_at bs (B + j) else bit_at seq j)"
    unfolding base N_def [symmetric] c_def [symmetric] by auto
  have n1: "unat sz1 < 8" by (simp add: s1)
  have base1: "8 * (entry + c) + unat sh = B + 8 * c" using base by simp
  have NN: "8 * c + N mod 8 = N" by (simp add: c_def)
  have fit1: "8 * (entry + c) + unat sh + unat sz1 \<le> 8 * length bs"
    using fit NN by (simp only: base1 s1 B_def [symmetric] N_def [symmetric])
  have dst1: "c < length seq1" if "sz1 \<noteq> 0"
  proof -
    from that have "0 < N mod 8" by (simp add: s1 [symmetric] unat_gt_0)
    then have "N + 7 = 8 * (c + 1) + (N mod 8 - 1)" using NN by simp
    then have "(N + 7) div 8 = c + 1 + (N mod 8 - 1) div 8" by (simp only: div_mult_self4)
    with dst show ?thesis by (simp add: N_def l1)
  qed
  from read_tail_bits [OF r8 mk_def n1 fit1 dst1]
  obtain seq2 where tl: "read_tail sh mk bs seq1 (entry + c) c sz1 = Some seq2"
    and l2: "length seq2 = length seq1"
    and b2: "\<And>j. bit_at seq2 j = (if j div 8 = c \<and> j mod 8 < N mod 8
               then bit_at seq1 j \<or> bit_at bs (B + 8 * c + j mod 8) else bit_at seq1 j)"
    unfolding base1 s1 by auto
  have run: "bitset_read s index seq sz = Some (seq2, sz)"
    by (simp only: unf lo tl Option.bind.bind_lunit prod.case)
  have bits: "bit_at seq2 j = (bit_at seq j \<or> (j < N \<and> bit_at bs (B + j)))" for j
  proof -
    have j: "8 * (j div 8) + j mod 8 = j" by simp
    have c1: "j < 8 * c \<longleftrightarrow> j div 8 < c" by (simp add: less_iff_div_mod8 [of j "8 * c"])
    have c2: "j < N \<longleftrightarrow> j div 8 < c \<or> (j div 8 = c \<and> j mod 8 < N mod 8)"
      unfolding c_def by (rule less_iff_div_mod8)
    show ?thesis
    proof (cases "j div 8 = c \<and> j mod 8 < N mod 8")
      case True
      with j have "8 * c + j mod 8 = j" by simp
      then have eq: "B + 8 * c + j mod 8 = B + j" by simp
      from True show ?thesis by (simp add: b2 b1 c1 c2 eq)
    next
      case False
      then show ?thesis by (auto simp: b2 b1 c1 c2)
    qed
  qed
  from run l1 l2 bits show ?thesis
    unfolding B_def N_def by (intro exI [of _ seq2]) simp
qed

lemma bit_extracted:
  "bit (extracted bs index count k) t
     \<longleftrightarrow> t < 8 \<and> 8 * k + t < count \<and> bit_at bs (index + (8 * k + t))"
  by (auto simp: extracted_def bit_simps)

lemma extracted_beyond: "count \<le> 8 * k \<Longrightarrow> extracted bs index count k = 0"
  by (rule bit_word_eqI) (simp add: bit_extracted)

lemma byte_eq_bits:
  assumes "\<And>t. t < 8 \<Longrightarrow> bit (a :: byte) t = bit b t" shows "a = b"
  by (rule bit_word_eqI) (simp add: assms)

text \<open>
  C10, as amended: for a well-formed bitset, \<open>index + count \<le> capacity\<close> and a destination
  of at least \<open>ceil(count / 8)\<close> bytes, \<^verbatim>\<open>bitset_read\<close> succeeds, returns \<open>count\<close>, and
  every destination byte becomes its prior value ORed with the byte of extracted bits
  (\<open>extracted\<close>: bit \<open>t\<close> of byte \<open>k\<close> is bit \<open>index + 8k + t\<close> of the bitset when
  \<open>8k + t < count\<close>, else 0). No destination bit is cleared, and bytes past
  \<open>ceil(count / 8)\<close> stay as they were. The result equals the extracted bits exactly when
  the destination had no 1-bit outside them (each byte ORed with its extracted byte is
  that extracted byte); a destination of zero bytes is one such case, not the only one.
\<close>

theorem bitset_read_or:
  assumes wf: "wf_bitset s bs"
    and fit: "unat index + unat count \<le> unat (capacity s)"
    and dst: "(unat count + 7) div 8 \<le> length dest"
  shows "\<exists>dest'. bitset_read s index dest count = Some (dest', count)
           \<and> length dest' = length dest
           \<and> (\<forall>k < length dest.
                 dest' ! k = dest ! k OR extracted bs (unat index) (unat count) k)
           \<and> (\<forall>j < 8 * length dest. bit_at dest j \<longrightarrow> bit_at dest' j)
           \<and> (\<forall>k < length dest. (unat count + 7) div 8 \<le> k \<longrightarrow> dest' ! k = dest ! k)
           \<and> ((\<forall>k < length dest. dest ! k = 0) \<longrightarrow>
                 (\<forall>k < length dest. dest' ! k = extracted bs (unat index) (unat count) k))
           \<and> ((\<forall>k < length dest. dest' ! k = extracted bs (unat index) (unat count) k) \<longleftrightarrow>
                 (\<forall>k < length dest.
                    dest ! k OR extracted bs (unat index) (unat count) k
                      = extracted bs (unat index) (unat count) k))"
proof -
  from wf have d: "data s = Some bs" and c: "8 * length bs = unat (capacity s)"
    by (simp_all add: wf_bitset_def)
  from fit c have fit': "unat index + unat count \<le> 8 * length bs" by simp
  from bitset_read_bits [OF d fit' dst]
  obtain dest' where rd: "bitset_read s index dest count = Some (dest', count)"
    and len: "length dest' = length dest"
    and bits: "\<And>j. bit_at dest' j
                 = (bit_at dest j \<or> (j < unat count \<and> bit_at bs (unat index + j)))"
    by blast
  have bytes: "dest' ! k = dest ! k OR extracted bs (unat index) (unat count) k" for k
  proof (rule byte_eq_bits)
    fix t :: nat assume t: "t < 8"
    from bits [of "8 * k + t"] t
    show "bit (dest' ! k) t = bit (dest ! k OR extracted bs (unat index) (unat count) k) t"
      by (simp add: bit_at_byte bit_or_iff bit_extracted)
  qed
  have keep: "bit_at dest j \<longrightarrow> bit_at dest' j" for j by (simp add: bits)
  have beyond: "dest' ! k = dest ! k" if "(unat count + 7) div 8 \<le> k" for k
  proof -
    from that have "unat count \<le> 8 * k" by (rule ceil8_le)
    then show ?thesis by (simp add: bytes extracted_beyond)
  qed
  show ?thesis
    using rd len keep beyond by (intro exI [of _ dest']) (simp add: bytes)
qed


text \<open>
  C10 as stated, with equality only for a zeroed destination, fails: reading the 8 bits
  at bit 0 of \<open>demo_set\<close> into the byte \<open>0x02\<close> gives \<open>0x5A\<close>, which is exactly the
  extracted byte, since bit 1 is set in it too.
\<close>

theorem bitset_read_or_counterexample:
  "bitset_read demo_set 0 [0x02] 8 = Some ([0x5A], 8)
   \<and> extracted demo_bytes 0 8 0 = 0x5A
   \<and> [0x02 :: byte] ! 0 \<noteq> 0"
  by code_simp

text \<open>
  The amended statement for 12 bits read at bit 3 of \<open>demo_set\<close>: into \<open>0x90, 0x01\<close> the
  result is \<open>0xFB, 0x09\<close>, each byte the old one ORed with the extracted byte; into
  zeroes it is \<open>0x6B, 0x08\<close>, the extracted bytes themselves.
\<close>

theorem bitset_read_or_witness:
  "wf_bitset demo_set demo_bytes
   \<and> unat (3 :: size_t) + unat (12 :: size_t) \<le> unat (capacity demo_set)
   \<and> (unat (12 :: size_t) + 7) div 8 \<le> length [0x90, 0x01 :: byte]
   \<and> (\<exists>dest'. bitset_read demo_set 3 [0x90, 0x01] 12 = Some (dest', 12)
           \<and> (\<forall>k < length [0x90, 0x01 :: byte].
                 dest' ! k = [0x90, 0x01] ! k OR extracted demo_bytes (unat (3 :: size_t)) (unat (12 :: size_t)) k))
   \<and> bitset_read demo_set 3 [0x90, 0x01] 12 = Some ([0xFB, 0x09], 12)
   \<and> (unat (12 :: size_t) + 7) div 8 \<le> length [0x00, 0x00 :: byte]
   \<and> [0x00, 0x00 :: byte] ! 0 = 0 \<and> [0x00, 0x00 :: byte] ! 1 = 0
   \<and> bitset_read demo_set 3 [0x00, 0x00] 12 = Some ([0x6B, 0x08], 12)
   \<and> extracted demo_bytes (unat (3 :: size_t)) (unat (12 :: size_t)) 0 = 0x6B
   \<and> extracted demo_bytes (unat (3 :: size_t)) (unat (12 :: size_t)) 1 = 0x08"
proof -
  have wf: "wf_bitset demo_set demo_bytes"
    by (simp add: wf_bitset_def demo_set_def demo_bytes_def)
  have fit: "unat (3 :: size_t) + unat (12 :: size_t) \<le> unat (capacity demo_set)"
    by (simp add: demo_set_def)
  have dst: "(unat (12 :: size_t) + 7) div 8 \<le> length [0x90, 0x01 :: byte]"
    by simp
  have dst0: "(unat (12 :: size_t) + 7) div 8 \<le> length [0x00, 0x00 :: byte]"
    by simp
  have z: "[0x00, 0x00 :: byte] ! 0 = 0" "[0x00, 0x00 :: byte] ! 1 = 0" by simp_all
  have zero: "\<forall>k < length [0x00, 0x00 :: byte]. [0x00, 0x00 :: byte] ! k = 0"
    by (simp add: less_Suc_eq)
  have ev: "bitset_read demo_set 3 [0x90, 0x01] 12 = Some ([0xFB, 0x09], 12)"
    by code_simp
  have ev0: "bitset_read demo_set 3 [0x00, 0x00] 12 = Some ([0x6B, 0x08], 12)"
    by code_simp
  from bitset_read_or [OF wf fit dst]
  have or: "\<exists>dest'. bitset_read demo_set 3 [0x90, 0x01] 12 = Some (dest', 12)
           \<and> (\<forall>k < length [0x90, 0x01 :: byte].
                 dest' ! k = [0x90, 0x01] ! k OR extracted demo_bytes (unat (3 :: size_t)) (unat (12 :: size_t)) k)"
    by blast
  from bitset_read_or [OF wf fit dst0] zero
  obtain d0 where r0: "bitset_read demo_set 3 [0x00, 0x00] 12 = Some (d0, 12)"
    and e0: "\<forall>k < length [0x00, 0x00 :: byte].
               d0 ! k = extracted demo_bytes (unat (3 :: size_t)) (unat (12 :: size_t)) k"
    by blast
  from r0 ev0 have d0: "d0 = [0x6B, 0x08]" by simp
  from e0 [rule_format, of 0]
  have x0: "extracted demo_bytes (unat (3 :: size_t)) (unat (12 :: size_t)) 0 = 0x6B"
    unfolding d0 by simp
  from e0 [rule_format, of 1]
  have x1: "extracted demo_bytes (unat (3 :: size_t)) (unat (12 :: size_t)) 1 = 0x08"
    unfolding d0 by simp
  from wf fit dst or ev dst0 z ev0 x0 x1 show ?thesis by blast
qed

lemma bit_at_replicate_0: "j < 8 * m \<Longrightarrow> \<not> bit_at (replicate m 0) j"
  by (simp add: bit_at_def)

text \<open>
  C3, as amended: for a well-formed bitset, any \<open>index\<close> and \<open>count\<close> with
  \<open>index + count \<le> capacity\<close> (so also \<open>index mod 8 \<noteq> 0\<close> and counts that span three or
  more bytes), \<^verbatim>\<open>bitset_write\<close> followed by \<^verbatim>\<open>bitset_read\<close> of the same range into a
  destination of \<open>m \<ge> ceil(count / 8)\<close> zero bytes gives a destination whose bit \<open>j\<close> is
  bit \<open>j\<close> of the source for \<open>j < count\<close> and 0 above.
\<close>

theorem bitset_write_read:
  assumes wf: "wf_bitset s bs"
    and fit: "unat index + unat count \<le> unat (capacity s)"
    and src: "(unat count + 7) div 8 \<le> length seq"
    and dst: "(unat count + 7) div 8 \<le> m"
  shows "\<exists>bs' dest'. bitset_write s index seq count = Some (s\<lparr>data := Some bs'\<rparr>, count)
           \<and> bitset_read (s\<lparr>data := Some bs'\<rparr>) index (replicate m 0) count = Some (dest', count)
           \<and> length dest' = m
           \<and> (\<forall>j < 8 * m. bit_at dest' j = (j < unat count \<and> bit_at seq j))"
proof -
  from wf have d: "data s = Some bs" and c: "8 * length bs = unat (capacity s)"
    by (simp_all add: wf_bitset_def)
  from fit c have fit': "unat index + unat count \<le> 8 * length bs" by simp
  from bitset_write_bits [OF d fit' src]
  obtain bs' where w: "bitset_write s index seq count = Some (s\<lparr>data := Some bs'\<rparr>, count)"
    and l1: "length bs' = length bs"
    and b1: "\<And>i. bit_at bs' i = (if unat index \<le> i \<and> i < unat index + unat count
                  then bit_at seq (i - unat index) else bit_at bs i)"
    by blast
  have d': "data (s\<lparr>data := Some bs'\<rparr>) = Some bs'" by simp
  from fit' l1 have fit'': "unat index + unat count \<le> 8 * length bs'" by simp
  from dst have dst': "(unat count + 7) div 8 \<le> length (replicate m (0 :: byte))" by simp
  from bitset_read_bits [OF d' fit'' dst']
  obtain dest' where rd: "bitset_read (s\<lparr>data := Some bs'\<rparr>) index (replicate m 0) count
        = Some (dest', count)"
    and l2: "length dest' = m"
    and b2: "\<And>j. bit_at dest' j
               = (bit_at (replicate m 0) j \<or> (j < unat count \<and> bit_at bs' (unat index + j)))"
    by auto
  have "bit_at dest' j = (j < unat count \<and> bit_at seq j)" if "j < 8 * m" for j
    using bit_at_replicate_0 [OF that] by (auto simp: b2 b1)
  with w rd l2 show ?thesis by blast
qed

text \<open>
  C3 as stated, for any destination, fails: after writing 20 bits at bit 3 of a
  three-byte bitset, reading them into \<open>0x40, 0, 0\<close> gives \<open>0xF3, 0x0F, 0x05\<close>, whose
  bit 6 is set while bit 6 of the source is not.
\<close>

theorem bitset_write_read_counterexample:
  "unat (3 :: size_t) mod 8 \<noteq> 0 \<and> 16 < unat (20 :: size_t)
   \<and> unat (3 :: size_t) + unat (20 :: size_t) \<le> unat (capacity demo_set3)
   \<and> bitset_write demo_set3 3 demo_seq3 20
         = Some (demo_set3\<lparr>data := Some [0x9A, 0x7D, 0x28]\<rparr>, 20)
   \<and> bitset_read (demo_set3\<lparr>data := Some [0x9A, 0x7D, 0x28]\<rparr>) 3 [0x40, 0x00, 0x00] 20
         = Some ([0xF3, 0x0F, 0x05], 20)
   \<and> bit_at [0xF3, 0x0F, 0x05] 6 \<and> \<not> bit_at demo_seq3 6"
  by code_simp

text \<open>The amended statement on the same input with a zeroed destination.\<close>

theorem bitset_write_read_witness:
  "wf_bitset demo_set3 [0x5A, 0xC3, 0x3C]
   \<and> unat (3 :: size_t) + unat (20 :: size_t) \<le> unat (capacity demo_set3)
   \<and> (unat (20 :: size_t) + 7) div 8 \<le> length demo_seq3
   \<and> (unat (20 :: size_t) + 7) div 8 \<le> (3 :: nat)
   \<and> (\<exists>bs' dest'. bitset_write demo_set3 3 demo_seq3 20 = Some (demo_set3\<lparr>data := Some bs'\<rparr>, 20)
          \<and> bitset_read (demo_set3\<lparr>data := Some bs'\<rparr>) 3 (replicate 3 0) 20 = Some (dest', 20)
          \<and> length dest' = 3
          \<and> (\<forall>j < 8 * 3. bit_at dest' j = (j < unat (20 :: size_t) \<and> bit_at demo_seq3 j)))
   \<and> bitset_read (demo_set3\<lparr>data := Some [0x9A, 0x7D, 0x28]\<rparr>) 3 (replicate 3 0) 20
         = Some ([0xB3, 0x0F, 0x05], 20)"
proof -
  have wf: "wf_bitset demo_set3 [0x5A, 0xC3, 0x3C]"
    by (simp add: wf_bitset_def demo_set3_def)
  have fit: "unat (3 :: size_t) + unat (20 :: size_t) \<le> unat (capacity demo_set3)"
    by (simp add: demo_set3_def)
  have src: "(unat (20 :: size_t) + 7) div 8 \<le> length demo_seq3"
    by (simp add: demo_seq3_def)
  have dst: "(unat (20 :: size_t) + 7) div 8 \<le> (3 :: nat)" by simp
  have ev: "bitset_read (demo_set3\<lparr>data := Some [0x9A, 0x7D, 0x28]\<rparr>) 3 (replicate 3 0) 20
         = Some ([0xB3, 0x0F, 0x05], 20)"
    by code_simp
  from bitset_write_read [OF wf fit src dst] wf fit src dst ev show ?thesis by blast
qed

text \<open>
  C5, as amended: for a well-formed bitset and \<open>index + count \<le> capacity\<close>, reading
  \<open>count\<close> bits at \<open>index\<close> into \<open>m \<ge> ceil(count / 8)\<close> zero bytes and writing that buffer
  back at \<open>index\<close> returns the bitset exactly as it was.
\<close>

theorem bitset_read_write_back:
  assumes wf: "wf_bitset s bs"
    and fit: "unat index + unat count \<le> unat (capacity s)"
    and dst: "(unat count + 7) div 8 \<le> m"
  shows "\<exists>dest'. bitset_read s index (replicate m 0) count = Some (dest', count)
           \<and> bitset_write s index dest' count = Some (s, count)"
proof -
  from wf have d: "data s = Some bs" and c: "8 * length bs = unat (capacity s)"
    by (simp_all add: wf_bitset_def)
  from fit c have fit': "unat index + unat count \<le> 8 * length bs" by simp
  from dst have dst': "(unat count + 7) div 8 \<le> length (replicate m (0 :: byte))" by simp
  from bitset_read_bits [OF d fit' dst']
  obtain dest' where rd: "bitset_read s index (replicate m 0) count = Some (dest', count)"
    and l2: "length dest' = m"
    and b2: "\<And>j. bit_at dest' j
               = (bit_at (replicate m 0) j \<or> (j < unat count \<and> bit_at bs (unat index + j)))"
    by auto
  from dst l2 have src: "(unat count + 7) div 8 \<le> length dest'" by simp
  from bitset_write_bits [OF d fit' src]
  obtain bs' where w: "bitset_write s index dest' count = Some (s\<lparr>data := Some bs'\<rparr>, count)"
    and l1: "length bs' = length bs"
    and b1: "\<And>i. bit_at bs' i = (if unat index \<le> i \<and> i < unat index + unat count
                  then bit_at dest' (i - unat index) else bit_at bs i)"
    by blast
  have "bit_at bs' i = bit_at bs i" for i
  proof (cases "unat index \<le> i \<and> i < unat index + unat count")
    case True
    then have lt: "i - unat index < unat count" by arith
    then have "(i - unat index) div 8 < (unat count + 7) div 8" by (rule ceil8_gt)
    with dst have "(i - unat index) div 8 < m" by simp
    then have "i - unat index < 8 * m" by simp
    from bit_at_replicate_0 [OF this] True lt show ?thesis by (simp add: b1 b2)
  next
    case False
    then show ?thesis by (auto simp: b1)
  qed
  with l1 have "bs' = bs" by (intro bit_at_eqI) simp_all
  with d have "s\<lparr>data := Some bs'\<rparr> = s" by simp
  with rd w show ?thesis by simp
qed

text \<open>
  C5 as stated, for any external buffer, fails: reading the first byte of \<open>demo_set\<close>
  into \<open>0x01\<close> gives \<open>0x5B\<close>, and writing that back changes bit 0 of the bitset.
\<close>

theorem bitset_read_write_back_counterexample:
  "unat (0 :: size_t) + unat (8 :: size_t) \<le> unat (capacity demo_set)
   \<and> bitset_read demo_set 0 [0x01] 8 = Some ([0x5B], 8)
   \<and> bitset_write demo_set 0 [0x5B] 8 = Some (demo_set\<lparr>data := Some [0x5B, 0xC3]\<rparr>, 8)
   \<and> demo_set\<lparr>data := Some [0x5B, 0xC3]\<rparr> \<noteq> demo_set"
  by code_simp

text \<open>The amended statement for 12 bits at bit 3 of \<open>demo_set\<close>.\<close>

theorem bitset_read_write_back_witness:
  "wf_bitset demo_set demo_bytes
   \<and> unat (3 :: size_t) + unat (12 :: size_t) \<le> unat (capacity demo_set)
   \<and> (unat (12 :: size_t) + 7) div 8 \<le> (2 :: nat)
   \<and> (\<exists>dest'. bitset_read demo_set 3 (replicate 2 0) 12 = Some (dest', 12)
          \<and> bitset_write demo_set 3 dest' 12 = Some (demo_set, 12))
   \<and> bitset_read demo_set 3 (replicate 2 0) 12 = Some ([0x6B, 0x08], 12)
   \<and> bitset_write demo_set 3 [0x6B, 0x08] 12 = Some (demo_set, 12)"
proof -
  have wf: "wf_bitset demo_set demo_bytes"
    by (simp add: wf_bitset_def demo_set_def demo_bytes_def)
  have fit: "unat (3 :: size_t) + unat (12 :: size_t) \<le> unat (capacity demo_set)"
    by (simp add: demo_set_def)
  have dst: "(unat (12 :: size_t) + 7) div 8 \<le> (2 :: nat)" by simp
  have ev: "bitset_read demo_set 3 (replicate 2 0) 12 = Some ([0x6B, 0x08], 12)"
    by code_simp
  have ev2: "bitset_write demo_set 3 [0x6B, 0x08] 12 = Some (demo_set, 12)"
    by code_simp
  from bitset_read_write_back [OF wf fit dst] wf fit dst ev ev2 show ?thesis by blast
qed

section \<open>Allocation: what the code does\<close>

lemma bytes_0: "bitset_internal_bytes 0 = 2 ^ 61"
  by (simp add: bitset_internal_bytes_def drop_bit_eq_div)

text \<open>
  C2 does not hold of the code: when \<^verbatim>\<open>realloc\<close> fails, \<^verbatim>\<open>bitset_resize\<close> has already
  stored the \<^verbatim>\<open>NULL\<close> result into \<^verbatim>\<open>set->data\<close>. Size and capacity stay and 0 is
  returned, but the pointer to the old buffer is gone.
\<close>

theorem bitset_resize_failure_drops_buffer:
  "bitset_resize heap_fail demo_set 24 = (demo_set\<lparr>data := None\<rparr>, 0)
   \<and> data demo_set = Some demo_bytes"
  by (simp add: bitset_resize_def realloc_m_def heap_fail_def demo_set_def Let_def)

text \<open>
  C7 does not hold of the code. A zeroed 11-bit bitset gets bit 9 set, is shrunk to 9
  bits and grown back to 11 with \<^verbatim>\<open>bitset_cresize\<close>: \<^verbatim>\<open>bitset_rclear(set, 9, 11)\<close> takes
  the same-byte branch, shifts its mask by 9 and clears nothing, so bit 9 is still set.
  Growing to 16 bits instead makes \<^verbatim>\<open>bitset_rclear\<close> touch \<^verbatim>\<open>*end_ptr\<close> one byte past
  the two-byte buffer.
\<close>

theorem bitset_cresize_keeps_stale_bits:
  "bitset_malloc heap_ok 11 1 = Some \<lparr>data = Some [0, 0], capacity = 16, size_bits = 11\<rparr>
   \<and> bitset_set \<lparr>data = Some [0, 0], capacity = 16, size_bits = 11\<rparr> 9 1
       = Some \<lparr>data = Some [0, 2], capacity = 16, size_bits = 11\<rparr>
   \<and> bitset_resize heap_ok \<lparr>data = Some [0, 2], capacity = 16, size_bits = 11\<rparr> 9
       = (\<lparr>data = Some [0, 2], capacity = 16, size_bits = 9\<rparr>, 2)
   \<and> bitset_cresize heap_ok \<lparr>data = Some [0, 2], capacity = 16, size_bits = 9\<rparr> 11
       = Some (\<lparr>data = Some [0, 2], capacity = 16, size_bits = 11\<rparr>, - 2)
   \<and> bitset_get \<lparr>data = Some [0, 2], capacity = 16, size_bits = 11\<rparr> 9 = Some 2
   \<and> bitset_cresize heap_ok \<lparr>data = Some [0, 2], capacity = 16, size_bits = 9\<rparr> 16 = None"
  by code_simp


text \<open>
  C6 does not hold of the code for \<open>num = 0\<close>: \<^verbatim>\<open>bitset_internal_bytes(0)\<close> is
  \<^verbatim>\<open>((0 - 1) >> 3) + 1\<close> in \<^verbatim>\<open>size_t\<close>, that is \<open>2 ^ 61\<close> bytes and not 0. An allocator
  bound by the address space refuses and \<^verbatim>\<open>bitset_malloc\<close> returns \<^verbatim>\<open>NULL\<close>; one that
  grants the request hands out \<open>2 ^ 61\<close> bytes for a capacity that wraps to 0.
\<close>

theorem bitset_malloc_zero_bits:
  "bitset_internal_bytes 0 = 2 ^ 61
   \<and> bitset_malloc heap_47 0 1 = None
   \<and> bitset_malloc heap_ok 0 1
       = Some \<lparr>data = Some (replicate (2 ^ 61) 0), capacity = 0, size_bits = 0\<rparr>"
  by (simp add: bytes_0 bitset_malloc_def bitset_internal_alloc_def calloc_m_def
      heap_47_def heap_ok_def sizeof_bitset_def bitset_internal_capacity_def Let_def)

text \<open>
  A resize to 0 bits asks for the same \<open>2 ^ 61\<close> bytes: an allocator bound by the address
  space refuses, so the resize fails; one that granted the request would leave a buffer
  of \<open>2 ^ 61\<close> bytes with capacity 0 and size 0.
\<close>

lemma bitset_resize_zero_bits:
  "bitset_resize heap_ok demo_set 0
     = (\<lparr>data = Some (demo_bytes @ map (\<lambda>i. 0xAA) [length demo_bytes..<2 ^ 61]), capacity = 0, size_bits = 0\<rparr>, 16)
   \<and> length (demo_bytes @ map (\<lambda>i. 0xAA :: byte) [length demo_bytes..<2 ^ 61]) = 2 ^ 61
   \<and> bitset_resize heap_47 demo_set 0 = (demo_set\<lparr>data := None\<rparr>, 0)"
  by (simp add: bytes_0 bitset_resize_def realloc_m_def heap_47_def heap_ok_def demo_set_def
      demo_bytes_def bitset_internal_capacity_def Let_def del: upt_rec_numeral)

lemma unat_internal_bytes:
  assumes "sz \<noteq> 0"
  shows "unat (bitset_internal_bytes sz) = (unat sz + 7) div 8"
proof -
  from assms have pos: "1 \<le> unat sz" by (simp add: unat_gt_0 Suc_leI)
  then have m1: "unat (sz - 1) = unat sz - 1" by (simp add: unat_sub word_le_nat_alt)
  have lt: "unat sz < 2 ^ 64" using unsigned_less [of sz] by simp
  have d: "unat (drop_bit 3 (sz - 1)) = (unat sz - 1) div 8"
    by (simp add: unat_drop_bit3 m1)
  have small: "(unat sz - 1) div 8 < 2 ^ 61" using lt by simp
  have "unat (drop_bit 3 (sz - 1) + 1) = (unat sz - 1) div 8 + 1"
    using small by (simp add: unat_word_ariths d)
  also have "\<dots> = (unat sz - 1 + 8) div 8" by simp
  also have "unat sz - 1 + 8 = unat sz + 7" using pos by simp
  finally show ?thesis by (simp add: bitset_internal_bytes_def)
qed

lemma unat_internal_capacity:
  assumes "unat bytes < 2 ^ 61"
  shows "unat (bitset_internal_capacity bytes) = 8 * unat bytes"
proof -
  have "unat (push_bit 3 bytes) = take_bit 64 (push_bit 3 (unat bytes))"
    by (simp add: unsigned_push_bit_eq)
  also have "\<dots> = 8 * unat bytes"
    using assms by (simp add: push_bit_eq_mult take_bit_nat_eq_self_iff mult.commute)
  finally show ?thesis by (simp add: bitset_internal_capacity_def)
qed

lemma ceil8_bound:
  assumes "unat (sz :: size_t) \<le> 2 ^ 64 - 8"
  shows "(unat sz + 7) div 8 < 2 ^ 61"
proof -
  from assms have "unat sz + 7 < 8 * 2 ^ 61" by simp
  then show ?thesis by (simp only: less_mult_imp_div_less mult.commute)
qed


section \<open>The capacity invariant\<close>

text \<open>
  The byte count of a request is \<open>ceil(size / 8)\<close>, below \<open>2 ^ 61\<close>, except for size 0 and
  for sizes above \<open>2 ^ 64 - 8\<close>, where it is \<open>2 ^ 61\<close>.
\<close>

lemma internal_bytes_cases:
  "unat (bitset_internal_bytes sz) = 2 ^ 61
   \<or> (unat (bitset_internal_bytes sz) = (unat sz + 7) div 8 \<and> (unat sz + 7) div 8 < 2 ^ 61)"
proof (cases "sz = 0")
  case True
  then show ?thesis by (simp add: bytes_0)
next
  case False
  then have b: "unat (bitset_internal_bytes sz) = (unat sz + 7) div 8"
    by (rule unat_internal_bytes)
  show ?thesis
  proof (cases "unat sz \<le> 2 ^ 64 - 8")
    case True
    then have "(unat sz + 7) div 8 < 2 ^ 61" by (rule ceil8_bound)
    with b show ?thesis by simp
  next
    case False
    have "unat sz < 2 ^ 64" using unsigned_less [of sz] by simp
    with False have "(unat sz + 7) div 8 = 2 ^ 61" by simp
    with b show ?thesis by simp
  qed
qed

lemma realloc_m_Some:
  assumes "realloc_m h p n = Some d"
  shows "grants h n \<and> length d = n"
  using assms by (auto simp: realloc_m_def Let_def split: if_splits)

lemma internal_alloc_Some:
  assumes "bitset_internal_alloc h clear bytes 1 = Some d"
  shows "grants h (unat bytes) \<and> length d = unat bytes"
  using assms
  by (auto simp: bitset_internal_alloc_def calloc_m_def malloc_m_def split: if_splits)

lemma granted_bytes_invariant:
  assumes lim: "\<not> grants h (2 ^ 61)"
    and g: "grants h (unat (bitset_internal_bytes sz))"
    and len: "length d = unat (bitset_internal_bytes sz)"
  shows "cap_invariant \<lparr>data = Some d, capacity = bitset_internal_capacity (bitset_internal_bytes sz),
                        size_bits = sz\<rparr>"
proof -
  from internal_bytes_cases [of sz] lim g
  have b: "unat (bitset_internal_bytes sz) = (unat sz + 7) div 8"
    and small: "(unat sz + 7) div 8 < 2 ^ 61"
    by auto
  from small b have "unat (bitset_internal_capacity (bitset_internal_bytes sz))
      = 8 * unat (bitset_internal_bytes sz)"
    by (simp add: unat_internal_capacity)
  with b len show ?thesis by (simp add: cap_invariant_def buffer_bytes_def)
qed

lemma resize_invariant:
  assumes lim: "\<not> grants h (2 ^ 61)"
    and run: "bitset_resize h s sz = (s', r)"
    and ok: "data s' \<noteq> None"
  shows "cap_invariant s' \<and> size_bits s' = sz"
proof (cases "realloc_m h (data s) (unat (bitset_internal_bytes sz))")
  case None
  with run ok show ?thesis by (auto simp: bitset_resize_def Let_def)
next
  case (Some d)
  with run have s': "s' = \<lparr>data = Some d,
      capacity = bitset_internal_capacity (bitset_internal_bytes sz), size_bits = sz\<rparr>"
    by (auto simp: bitset_resize_def Let_def)
  from realloc_m_Some [OF Some] lim show ?thesis
    unfolding s' by (simp add: granted_bytes_invariant)
qed

text \<open>\<^verbatim>\<open>bitset_rclear\<close> changes bytes of the buffer only: its length, capacity and size stay.\<close>

lemma update_byte_length: "update_byte bs p f = Some bs' \<Longrightarrow> length bs' = length bs"
  by (auto simp: update_byte_def split: if_splits)

lemma memset_length: "memset bs p c n = Some bs' \<Longrightarrow> length bs' = length bs"
  by (auto simp: memset_def split: if_splits)

lemma rclear_keeps_shape:
  assumes "bitset_rclear s b e = Some (s', r)"
  shows "capacity s' = capacity s \<and> size_bits s' = size_bits s \<and> buffer_bytes s' = buffer_bytes s"
proof (cases "data s")
  case None
  with assms show ?thesis by (simp add: bitset_rclear_def)
next
  case (Some bs)
  with assms obtain bs' where s': "s' = s\<lparr>data := Some bs'\<rparr>"
    and run: "(if bitset_byte_at b = bitset_byte_at e then
               do {
                 a \<leftarrow> shl (NOT 0) (e - b);
                 m \<leftarrow> shl (NOT a) b;
                 update_byte bs (bitset_byte_at b) (\<lambda>x. to_uchar (to_int x AND NOT m))
               }
             else
               let first = bitset_byte_at b + (if (ucast (b AND 7) :: cint) \<noteq> 0 then 1 else 0) in
               if bitset_byte_at e < first then None
               else
                 do {
                   bs1 \<leftarrow> (if bitset_byte_at e - first \<noteq> 0
                          then memset bs first 0 (bitset_byte_at e - first)
                          else Some bs);
                   bs2 \<leftarrow> (if (ucast (b AND 7) :: cint) \<noteq> 0
                          then update_byte bs1 (bitset_byte_at b)
                                 (\<lambda>x. to_uchar (to_int x AND NOT (push_bit (unat (ucast (b AND 7) :: cint)) (NOT 0))))
                          else Some bs1);
                   update_byte bs2 (bitset_byte_at e)
                     (\<lambda>x. to_uchar (to_int x AND push_bit (unat (ucast (e AND 7) :: cint)) (NOT 0)))
                 }) = Some bs'"
    by (auto simp: bitset_rclear_def Let_def)
  have "length bs' = length bs"
  proof (cases "bitset_byte_at b = bitset_byte_at e")
    case True
    with run show ?thesis
      by (auto simp: bind_eq_Some_conv dest: update_byte_length)
  next
    case False
    with run show ?thesis
      by (auto simp: bind_eq_Some_conv Let_def split: if_splits
          dest!: update_byte_length memset_length)
  qed
  with s' Some show ?thesis by (simp add: buffer_bytes_def)
qed

text \<open>
  C9: let the allocator refuse a request of \<open>2 ^ 61\<close> bytes (an eighth of the 64-bit
  address space, which no allocator of an LP64 machine hands out). Then the bitset that
  \<^verbatim>\<open>bitset_new\<close> or \<^verbatim>\<open>bitset_malloc\<close> returns, and the bitset after every
  \<^verbatim>\<open>bitset_resize\<close> or \<^verbatim>\<open>bitset_cresize\<close> that succeeded (\<^verbatim>\<open>realloc\<close> returned a buffer, so
  \<^verbatim>\<open>set->data\<close> is not \<^verbatim>\<open>NULL\<close>), satisfies \<open>capacity = 8 * ceil(size / 8)\<close> with a backing
  buffer of exactly \<open>ceil(size / 8)\<close> bytes (\<open>cap_invariant\<close>; for \<^verbatim>\<open>bitset_new\<close> size and
  capacity are 0 and there is no buffer); and such a capacity is a multiple of 8. The
  sizes 0 and above \<open>2 ^ 64 - 8\<close> request \<open>2 ^ 61\<close> bytes, so with them no call succeeds.
\<close>

theorem bitset_capacity_invariant:
  assumes lim: "\<not> grants h (2 ^ 61)"
  shows "(bitset_new h = Some s0 \<longrightarrow> cap_invariant s0)
     \<and> (bitset_malloc h num clear = Some s1 \<longrightarrow> cap_invariant s1)
     \<and> (bitset_resize h s sz = (s2, r2) \<longrightarrow> data s2 \<noteq> None \<longrightarrow> cap_invariant s2)
     \<and> (bitset_cresize h s sz = Some (s3, r3) \<longrightarrow> data s3 \<noteq> None \<longrightarrow> cap_invariant s3)
     \<and> (cap_invariant s4 \<longrightarrow> 8 dvd unat (capacity s4))"
proof (intro conjI impI)
  assume "bitset_new h = Some s0"
  then show "cap_invariant s0"
    by (auto simp: bitset_new_def cap_invariant_def buffer_bytes_def split: if_splits)
next
  assume run: "bitset_malloc h num clear = Some s1"
  then obtain d where a: "bitset_internal_alloc h clear (bitset_internal_bytes num) 1 = Some d"
    and s1: "s1 = \<lparr>data = Some d,
       capacity = bitset_internal_capacity (bitset_internal_bytes num), size_bits = num\<rparr>"
    by (auto simp: bitset_malloc_def Let_def split: if_splits option.splits)
  from internal_alloc_Some [OF a] lim show "cap_invariant s1"
    unfolding s1 by (simp add: granted_bytes_invariant)
next
  assume "bitset_resize h s sz = (s2, r2)" "data s2 \<noteq> None"
  with lim show "cap_invariant s2" by (simp add: resize_invariant)
next
  assume run: "bitset_cresize h s sz = Some (s3, r3)" and ok: "data s3 \<noteq> None"
  obtain t d where rs: "bitset_resize h s sz = (t, d)" by (cases "bitset_resize h s sz")
  show "cap_invariant s3"
  proof (cases "sz > size_bits s")
    case False
    with run rs have "s3 = t" by (simp add: bitset_cresize_def Let_def)
    with rs ok lim show ?thesis by (simp add: resize_invariant)
  next
    case True
    with run rs obtain n where rc: "bitset_rclear t (size_bits s) (size_bits t) = Some (s3, n)"
      by (auto simp: bitset_cresize_def Let_def)
    have "data t \<noteq> None"
    proof
      assume "data t = None"
      then have "bitset_rclear t (size_bits s) (size_bits t) = None"
        by (simp add: bitset_rclear_def)
      with rc show False by simp
    qed
    with rs lim have "cap_invariant t" by (simp add: resize_invariant)
    with rclear_keeps_shape [OF rc] show ?thesis by (simp add: cap_invariant_def)
  qed
next
  assume "cap_invariant s4"
  then show "8 dvd unat (capacity s4)" by (simp add: cap_invariant_def)
qed

text \<open>
  The theorem with the allocator of a 47-bit address space: \<^verbatim>\<open>bitset_new\<close>,
  \<^verbatim>\<open>bitset_malloc\<close> of 11 bits, \<^verbatim>\<open>bitset_resize\<close> of \<open>demo_set\<close> to 24 bits and
  \<^verbatim>\<open>bitset_cresize\<close> of it to 28 bits; a resize to 0 bits fails there.
\<close>

theorem bitset_capacity_invariant_witness:
  "\<not> grants heap_47 (2 ^ 61)
   \<and> bitset_new heap_47 = Some \<lparr>data = None, capacity = 0, size_bits = 0\<rparr>
   \<and> cap_invariant \<lparr>data = None, capacity = 0, size_bits = 0\<rparr>
   \<and> bitset_malloc heap_47 11 1 = Some \<lparr>data = Some [0, 0], capacity = 16, size_bits = 11\<rparr>
   \<and> cap_invariant \<lparr>data = Some [0, 0], capacity = 16, size_bits = 11\<rparr>
   \<and> bitset_resize heap_47 demo_set 24
        = (\<lparr>data = Some [0x5A, 0xC3, 0xAA], capacity = 24, size_bits = 24\<rparr>, - 8)
   \<and> cap_invariant \<lparr>data = Some [0x5A, 0xC3, 0xAA], capacity = 24, size_bits = 24\<rparr>
   \<and> bitset_cresize heap_47 demo_set 28
        = Some (\<lparr>data = Some [0x5A, 0xC3, 0x00, 0xA0], capacity = 32, size_bits = 28\<rparr>, - 12)
   \<and> cap_invariant \<lparr>data = Some [0x5A, 0xC3, 0x00, 0xA0], capacity = 32, size_bits = 28\<rparr>
   \<and> 8 dvd unat (capacity \<lparr>data = Some [0x5A, 0xC3, 0x00, 0xA0], capacity = 32, size_bits = 28\<rparr>)
   \<and> bitset_resize heap_47 demo_set 0 = (demo_set\<lparr>data := None\<rparr>, 0)"
proof -
  have lim: "\<not> grants heap_47 (2 ^ 61)" by (simp add: heap_47_def)
  have n: "bitset_new heap_47 = Some \<lparr>data = None, capacity = 0, size_bits = 0\<rparr>"
    by (simp add: bitset_new_def heap_47_def sizeof_bitset_def)
  have "bitset_malloc heap_47 11 1 = bitset_malloc heap_ok 11 1"
    by (simp add: bitset_malloc_def bitset_internal_alloc_def calloc_m_def heap_47_def heap_ok_def
        sizeof_bitset_def bitset_internal_bytes_def Let_def drop_bit_eq_div)
  also have "\<dots> = Some \<lparr>data = Some [0, 0], capacity = 16, size_bits = 11\<rparr>"
    by code_simp
  finally have m: "bitset_malloc heap_47 11 1
      = Some \<lparr>data = Some [0, 0], capacity = 16, size_bits = 11\<rparr>" .
  have "bitset_resize heap_47 demo_set 24 = bitset_resize heap_ok demo_set 24"
    by (simp add: bitset_resize_def realloc_m_def heap_47_def heap_ok_def
        bitset_internal_bytes_def Let_def drop_bit_eq_div)
  also have "\<dots> = (\<lparr>data = Some [0x5A, 0xC3, 0xAA], capacity = 24, size_bits = 24\<rparr>, - 8)"
    by code_simp
  finally have r: "bitset_resize heap_47 demo_set 24
      = (\<lparr>data = Some [0x5A, 0xC3, 0xAA], capacity = 24, size_bits = 24\<rparr>, - 8)" .
  have "bitset_resize heap_47 demo_set 28 = bitset_resize heap_ok demo_set 28"
    by (simp add: bitset_resize_def realloc_m_def heap_47_def heap_ok_def
        bitset_internal_bytes_def Let_def drop_bit_eq_div)
  then have "bitset_cresize heap_47 demo_set 28 = bitset_cresize heap_ok demo_set 28"
    by (simp only: bitset_cresize_def)
  also have "\<dots>
      = Some (\<lparr>data = Some [0x5A, 0xC3, 0x00, 0xA0], capacity = 32, size_bits = 28\<rparr>, - 12)"
    by code_simp
  finally have c: "bitset_cresize heap_47 demo_set 28
      = Some (\<lparr>data = Some [0x5A, 0xC3, 0x00, 0xA0], capacity = 32, size_bits = 28\<rparr>, - 12)" .
  have z: "bitset_resize heap_47 demo_set 0 = (demo_set\<lparr>data := None\<rparr>, 0)"
    by (simp add: bitset_resize_def realloc_m_def heap_47_def bytes_0 Let_def)
  from bitset_capacity_invariant [OF lim,
      of "\<lparr>data = None, capacity = 0, size_bits = 0\<rparr>"
         11 1 "\<lparr>data = Some [0, 0], capacity = 16, size_bits = 11\<rparr>"
         demo_set 24 "\<lparr>data = Some [0x5A, 0xC3, 0xAA], capacity = 24, size_bits = 24\<rparr>" "- 8"]
       n m r
  have i1: "cap_invariant \<lparr>data = None, capacity = 0, size_bits = 0\<rparr>"
    and i2: "cap_invariant \<lparr>data = Some [0, 0], capacity = 16, size_bits = 11\<rparr>"
    and i3: "cap_invariant \<lparr>data = Some [0x5A, 0xC3, 0xAA], capacity = 24, size_bits = 24\<rparr>"
    by simp_all
  from bitset_capacity_invariant [OF lim,
      of _ _ _ _ demo_set 28 _ _
         "\<lparr>data = Some [0x5A, 0xC3, 0x00, 0xA0], capacity = 32, size_bits = 28\<rparr>" "- 12"
         "\<lparr>data = Some [0x5A, 0xC3, 0x00, 0xA0], capacity = 32, size_bits = 28\<rparr>"]
       c
  have i4: "cap_invariant \<lparr>data = Some [0x5A, 0xC3, 0x00, 0xA0], capacity = 32, size_bits = 28\<rparr>"
    by simp
  from bitset_capacity_invariant [OF lim,
      of _ _ _ _ _ _ _ _ _ _
         "\<lparr>data = Some [0x5A, 0xC3, 0x00, 0xA0], capacity = 32, size_bits = 28\<rparr>"] i4
  have i5: "8 dvd unat (capacity \<lparr>data = Some [0x5A, 0xC3, 0x00, 0xA0], capacity = 32, size_bits = 28\<rparr>)"
    by blast
  from lim n m r c z i1 i2 i3 i4 i5 show ?thesis by blast
qed

section \<open>Construction and resize within the supported sizes\<close>


text \<open>
  \<^verbatim>\<open>bitset_malloc\<close> for \<open>1 \<le> num \<le> 2 ^ 64 - 8\<close>, when both allocations succeed: the
  buffer has \<open>ceil(num / 8)\<close> bytes, size is \<open>num\<close>, capacity is eight times the byte
  count, the bitset is well formed, and with a non-zero \<open>clear\<close> every byte is 0.
\<close>

theorem bitset_malloc_ok:
  assumes nz: "num \<noteq> 0"
    and le: "unat num \<le> 2 ^ 64 - 8"
    and g1: "grants h sizeof_bitset"
    and g2: "grants h ((unat num + 7) div 8)"
  shows "\<exists>d cap. bitset_malloc h num clear = Some \<lparr>data = Some d, capacity = cap, size_bits = num\<rparr>
           \<and> length d = (unat num + 7) div 8
           \<and> unat cap = 8 * ((unat num + 7) div 8)
           \<and> wf_bitset \<lparr>data = Some d, capacity = cap, size_bits = num\<rparr> d
           \<and> (clear \<noteq> 0 \<longrightarrow> d = replicate ((unat num + 7) div 8) 0)"
proof -
  define n where "n = (unat num + 7) div 8"
  have b: "unat (bitset_internal_bytes num) = n"
    unfolding n_def by (rule unat_internal_bytes [OF nz])
  have "n < 2 ^ 61" unfolding n_def by (rule ceil8_bound [OF le])
  with b have c: "unat (bitset_internal_capacity (bitset_internal_bytes num)) = 8 * n"
    by (simp add: unat_internal_capacity)
  show ?thesis
  proof (cases "clear = 0")
    case True
    with g1 g2 b c show ?thesis
      by (simp add: bitset_malloc_def bitset_internal_alloc_def malloc_m_def Let_def
          wf_bitset_def n_def)
  next
    case False
    with g1 g2 b c show ?thesis
      by (simp add: bitset_malloc_def bitset_internal_alloc_def calloc_m_def Let_def
          wf_bitset_def n_def)
  qed
qed

text \<open>
  \<^verbatim>\<open>bitset_resize\<close> to \<open>1 \<le> sz \<le> 2 ^ 64 - 8\<close> bits, when \<^verbatim>\<open>realloc\<close> succeeds: the new
  buffer has \<open>ceil(sz / 8)\<close> bytes and keeps the old bytes up to the shorter length,
  capacity is eight times the byte count, size is \<open>sz\<close>, and the old size minus the
  new one is returned.
\<close>

theorem bitset_resize_ok:
  assumes nz: "sz \<noteq> 0"
    and le: "unat sz \<le> 2 ^ 64 - 8"
    and g: "grants h ((unat sz + 7) div 8)"
    and d: "data s = Some bs"
  shows "\<exists>d' cap. bitset_resize h s sz
             = (\<lparr>data = Some d', capacity = cap, size_bits = sz\<rparr>, size_bits s - sz)
           \<and> length d' = (unat sz + 7) div 8
           \<and> unat cap = 8 * ((unat sz + 7) div 8)
           \<and> wf_bitset \<lparr>data = Some d', capacity = cap, size_bits = sz\<rparr> d'
           \<and> (\<forall>k < min (length bs) ((unat sz + 7) div 8). d' ! k = bs ! k)"
proof -
  define n where "n = (unat sz + 7) div 8"
  define d' where "d' = take n bs @ map (junk h) [length bs..<n]"
  have b: "unat (bitset_internal_bytes sz) = n"
    unfolding n_def by (rule unat_internal_bytes [OF nz])
  have "n < 2 ^ 61" unfolding n_def by (rule ceil8_bound [OF le])
  with b have c: "unat (bitset_internal_capacity (bitset_internal_bytes sz)) = 8 * n"
    by (simp add: unat_internal_capacity)
  have len: "length d' = n" by (simp add: d'_def min_def)
  have keep: "d' ! k = bs ! k" if "k < min (length bs) n" for k
    using that by (simp add: d'_def nth_append)
  have run: "bitset_resize h s sz
      = (\<lparr>data = Some d', capacity = bitset_internal_capacity (bitset_internal_bytes sz),
           size_bits = sz\<rparr>, size_bits s - sz)"
    using g d by (simp add: bitset_resize_def realloc_m_def Let_def b n_def [symmetric] d'_def)
  show ?thesis
    unfolding n_def [symmetric]
    using run len c keep
    by (intro exI [of _ d'] exI [of _ "bitset_internal_capacity (bitset_internal_bytes sz)"])
       (simp add: wf_bitset_def)
qed

text \<open>
  \<^verbatim>\<open>bitset_resize\<close> when \<^verbatim>\<open>realloc\<close> fails: 0 is returned, size and capacity stay, and
  \<^verbatim>\<open>data\<close> is \<^verbatim>\<open>NULL\<close>.
\<close>

theorem bitset_resize_failure:
  assumes "\<not> grants h (unat (bitset_internal_bytes sz))"
  shows "bitset_resize h s sz = (s\<lparr>data := None\<rparr>, 0)"
  using assms by (simp add: bitset_resize_def realloc_m_def Let_def)

text \<open>
  \<^verbatim>\<open>bitset_cresize\<close> to a size that is not larger than the old one is \<^verbatim>\<open>bitset_resize\<close>.
\<close>

theorem bitset_cresize_no_growth:
  assumes "sz \<le> size_bits s"
  shows "bitset_cresize h s sz = Some (bitset_resize h s sz)"
proof -
  from assms have "\<not> size_bits s < sz" by (simp add: not_less)
  then show ?thesis by (simp add: bitset_cresize_def Let_def split: prod.split)
qed


text \<open>
  \<^verbatim>\<open>bitset_cresize\<close> to a larger size, when \<^verbatim>\<open>realloc\<close> succeeds, the old and the new
  size lie in different bytes and the new size is not a multiple of 8: every bit below
  the old size keeps its value and every bit from the old size up to the new one is 0.
\<close>

theorem bitset_cresize_grow:
  assumes d: "data s = Some bs"
    and inv: "unat (size_bits s) \<le> 8 * length bs"
    and grow: "size_bits s < sz"
    and le: "unat sz \<le> 2 ^ 64 - 8"
    and g: "grants h ((unat sz + 7) div 8)"
    and part: "unat sz mod 8 \<noteq> 0"
    and diff: "unat (size_bits s) div 8 \<noteq> unat sz div 8"
  shows "\<exists>d' cap. bitset_cresize h s sz
             = Some (\<lparr>data = Some d', capacity = cap, size_bits = sz\<rparr>, size_bits s - sz)
           \<and> length d' = (unat sz + 7) div 8
           \<and> unat cap = 8 * ((unat sz + 7) div 8)
           \<and> (\<forall>i < unat (size_bits s). bit_at d' i = bit_at bs i)
           \<and> (\<forall>i < unat sz. unat (size_bits s) \<le> i \<longrightarrow> \<not> bit_at d' i)"
proof -
  define n old where "n = (unat sz + 7) div 8" and "old = size_bits s"
  from grow have nz: "sz \<noteq> 0" by auto
  from grow have lt: "unat old < unat sz" by (simp add: old_def word_less_nat_alt)
  from bitset_resize_ok [OF nz le g d]
  obtain d1 cap where rs: "bitset_resize h s sz
        = (\<lparr>data = Some d1, capacity = cap, size_bits = sz\<rparr>, old - sz)"
    and l1: "length d1 = n"
    and keep: "\<And>k. k < min (length bs) n \<Longrightarrow> d1 ! k = bs ! k"
    and cap: "unat cap = 8 * n"
    unfolding n_def old_def by blast
  let ?s1 = "\<lparr>data = Some d1, capacity = cap, size_bits = sz\<rparr>"
  have d1: "data ?s1 = Some d1" by simp
  from grow have ole: "old \<le> sz" by (simp add: old_def)
  have "unat sz div 8 < (unat sz + 7) div 8"
  proof -
    have e: "unat sz = 8 * (unat sz div 8) + unat sz mod 8" by simp
    from part have "0 < unat sz mod 8" by simp
    with e have "8 * (unat sz div 8) + 8 \<le> unat sz + 7" by linarith
    then have "(8 * (unat sz div 8) + 8) div 8 \<le> (unat sz + 7) div 8" by (rule div_le_mono)
    then show ?thesis by simp
  qed
  then have ep: "unat sz div 8 < length d1" by (simp add: l1 n_def)
  from diff have diff': "unat old div 8 \<noteq> unat sz div 8" by (simp add: old_def)
  from rclear_diff_bytes [OF d1 diff' ole ep]
  obtain d2 where rc: "bitset_rclear ?s1 old sz = Some (?s1\<lparr>data := Some d2\<rparr>, sz - old)"
    and l2: "length d2 = length d1"
    and b2: "\<And>i. i < 8 * length d1 \<Longrightarrow>
               bit_at d2 i = (bit_at d1 i \<and> \<not> (unat old \<le> i \<and> i < unat sz))"
    by blast
  have run: "bitset_cresize h s sz
      = Some (\<lparr>data = Some d2, capacity = cap, size_bits = sz\<rparr>, old - sz)"
    using grow by (simp add: bitset_cresize_def Let_def rs rc old_def [symmetric])
  have in_buf: "i < 8 * length d1" if "i < unat sz" for i
  proof -
    from that have "i div 8 < n" unfolding n_def by (rule ceil8_gt)
    then show ?thesis by (simp add: l1)
  qed
  have low: "bit_at d2 i = bit_at bs i" if "i < unat old" for i
  proof -
    from that lt have isz: "i < unat sz" by simp
    from that inv have "i div 8 < length bs" by (simp add: old_def)
    moreover from isz have "i div 8 < n" unfolding n_def by (rule ceil8_gt)
    ultimately have "d1 ! (i div 8) = bs ! (i div 8)" by (simp add: keep)
    then have "bit_at d1 i = bit_at bs i" by (simp add: bit_at_def)
    with b2 [OF in_buf [OF isz]] that show ?thesis by simp
  qed
  have high: "\<not> bit_at d2 i" if "i < unat sz" "unat old \<le> i" for i
    using b2 [OF in_buf [OF that(1)]] that by simp
  show ?thesis
    unfolding n_def [symmetric] old_def [symmetric]
    using run l1 l2 cap low high
    by (intro exI [of _ d2] exI [of _ cap]) simp
qed

text \<open>The five statements above on concrete bitsets.\<close>

theorem bitset_malloc_ok_witness:
  "(11 :: size_t) \<noteq> 0 \<and> unat (11 :: size_t) \<le> 2 ^ 64 - 8
   \<and> grants heap_ok sizeof_bitset \<and> grants heap_ok ((unat (11 :: size_t) + 7) div 8)
   \<and> (\<exists>d cap. bitset_malloc heap_ok 11 1 = Some \<lparr>data = Some d, capacity = cap, size_bits = 11\<rparr>
          \<and> length d = (unat (11 :: size_t) + 7) div 8
          \<and> unat cap = 8 * ((unat (11 :: size_t) + 7) div 8))
   \<and> bitset_malloc heap_ok 11 1 = Some \<lparr>data = Some [0, 0], capacity = 16, size_bits = 11\<rparr>"
proof -
  have nz: "(11 :: size_t) \<noteq> 0" by simp
  have le: "unat (11 :: size_t) \<le> 2 ^ 64 - 8" by simp
  have g1: "grants heap_ok sizeof_bitset" by (simp add: heap_ok_def)
  have g2: "grants heap_ok ((unat (11 :: size_t) + 7) div 8)" by (simp add: heap_ok_def)
  have ev: "bitset_malloc heap_ok 11 1 = Some \<lparr>data = Some [0, 0], capacity = 16, size_bits = 11\<rparr>"
    by code_simp
  from bitset_malloc_ok [OF nz le g1 g2, of 1] nz le g1 g2 ev show ?thesis by blast
qed

theorem bitset_resize_ok_witness:
  "(24 :: size_t) \<noteq> 0 \<and> unat (24 :: size_t) \<le> 2 ^ 64 - 8
   \<and> grants heap_ok ((unat (24 :: size_t) + 7) div 8) \<and> data demo_set = Some demo_bytes
   \<and> (\<exists>d' cap. bitset_resize heap_ok demo_set 24
            = (\<lparr>data = Some d', capacity = cap, size_bits = 24\<rparr>, size_bits demo_set - 24)
          \<and> length d' = (unat (24 :: size_t) + 7) div 8
          \<and> unat cap = 8 * ((unat (24 :: size_t) + 7) div 8))
   \<and> bitset_resize heap_ok demo_set 24
         = (\<lparr>data = Some [0x5A, 0xC3, 0xAA], capacity = 24, size_bits = 24\<rparr>, - 8)"
proof -
  have nz: "(24 :: size_t) \<noteq> 0" by simp
  have le: "unat (24 :: size_t) \<le> 2 ^ 64 - 8" by simp
  have g: "grants heap_ok ((unat (24 :: size_t) + 7) div 8)" by (simp add: heap_ok_def)
  have d: "data demo_set = Some demo_bytes" by (simp add: demo_set_def)
  have ev: "bitset_resize heap_ok demo_set 24
         = (\<lparr>data = Some [0x5A, 0xC3, 0xAA], capacity = 24, size_bits = 24\<rparr>, - 8)"
    by code_simp
  from bitset_resize_ok [OF nz le g d] nz le g d ev show ?thesis by blast
qed

theorem bitset_resize_failure_witness:
  "\<not> grants heap_fail (unat (bitset_internal_bytes 24))
   \<and> bitset_resize heap_fail demo_set 24 = (demo_set\<lparr>data := None\<rparr>, 0)"
proof -
  have g: "\<not> grants heap_fail (unat (bitset_internal_bytes 24))" by (simp add: heap_fail_def)
  from bitset_resize_failure [OF g] g show ?thesis by blast
qed

theorem bitset_cresize_no_growth_witness:
  "(9 :: size_t) \<le> size_bits demo_set
   \<and> bitset_cresize heap_ok demo_set 9 = Some (bitset_resize heap_ok demo_set 9)
   \<and> bitset_resize heap_ok demo_set 9 = (demo_set\<lparr>size_bits := 9\<rparr>, 7)"
proof -
  have le: "(9 :: size_t) \<le> size_bits demo_set" by (simp add: demo_set_def)
  have ev: "bitset_resize heap_ok demo_set 9 = (demo_set\<lparr>size_bits := 9\<rparr>, 7)"
    by code_simp
  from bitset_cresize_no_growth [OF le] le ev show ?thesis by blast
qed

theorem bitset_cresize_grow_witness:
  "data \<lparr>data = Some [0xFF, 0xFF], capacity = 16, size_bits = 5\<rparr> = Some [0xFF, 0xFF]
   \<and> unat (size_bits \<lparr>data = Some [0xFF, 0xFF], capacity = 16, size_bits = 5\<rparr>)
         \<le> 8 * length [0xFF, 0xFF :: byte]
   \<and> size_bits \<lparr>data = Some [0xFF, 0xFF], capacity = 16, size_bits = 5\<rparr> < 13
   \<and> unat (13 :: size_t) \<le> 2 ^ 64 - 8
   \<and> grants heap_ok ((unat (13 :: size_t) + 7) div 8)
   \<and> unat (13 :: size_t) mod 8 \<noteq> 0
   \<and> (\<exists>d' cap. bitset_cresize heap_ok \<lparr>data = Some [0xFF, 0xFF], capacity = 16, size_bits = 5\<rparr> 13
            = Some (\<lparr>data = Some d', capacity = cap, size_bits = 13\<rparr>,
                    size_bits \<lparr>data = Some [0xFF, 0xFF], capacity = 16, size_bits = 5\<rparr> - 13)
          \<and> length d' = (unat (13 :: size_t) + 7) div 8)
   \<and> bitset_cresize heap_ok \<lparr>data = Some [0xFF, 0xFF], capacity = 16, size_bits = 5\<rparr> 13
         = Some (\<lparr>data = Some [0x1F, 0xE0], capacity = 16, size_bits = 13\<rparr>, - 8)"
proof -
  let ?s = "\<lparr>data = Some [0xFF, 0xFF], capacity = 16, size_bits = 5\<rparr>"
  have d: "data ?s = Some [0xFF, 0xFF]" by simp
  have inv: "unat (size_bits ?s) \<le> 8 * length [0xFF, 0xFF :: byte]" by simp
  have grow: "size_bits ?s < 13" by simp
  have le: "unat (13 :: size_t) \<le> 2 ^ 64 - 8" by simp
  have g: "grants heap_ok ((unat (13 :: size_t) + 7) div 8)" by (simp add: heap_ok_def)
  have part: "unat (13 :: size_t) mod 8 \<noteq> 0" by simp
  have diff: "unat (size_bits ?s) div 8 \<noteq> unat (13 :: size_t) div 8" by simp
  have ev: "bitset_cresize heap_ok ?s 13
         = Some (\<lparr>data = Some [0x1F, 0xE0], capacity = 16, size_bits = 13\<rparr>, - 8)"
    by code_simp
  from bitset_cresize_grow [OF d inv grow le g part diff] d inv grow le g part ev
  show ?thesis by blast
qed

section \<open>Ranged clear inside one byte past the first\<close>

text \<open>
  What \<^verbatim>\<open>bitset_rclear\<close> does when both indices lie in one byte and \<open>8 \<le> begin_idx < 32\<close>:
  the mask is shifted by \<open>begin_idx\<close> itself, so no bit of the byte is cleared and the
  bitset comes back as it was.
\<close>

theorem bitset_rclear_same_byte_high:
  assumes wf: "wf_bitset s bs"
    and le: "begin_idx \<le> end_idx"
    and cap: "end_idx < capacity s"
    and same: "bitset_byte_at begin_idx = bitset_byte_at end_idx"
    and lo: "8 \<le> begin_idx"
    and hi: "begin_idx < 32"
  shows "bitset_rclear s begin_idx end_idx = Some (s, end_idx - begin_idx)"
proof -
  from wf have d: "data s = Some bs" and c: "8 * length bs = unat (capacity s)"
    by (simp_all add: wf_bitset_def)
  from same have sm: "unat begin_idx div 8 = unat end_idx div 8" by (simp add: byte_at_nat)
  from cap c have "unat end_idx div 8 < length bs" by (simp add: word_less_nat_alt)
  with sm have p: "unat begin_idx div 8 < length bs" by simp
  from hi have b32: "unat begin_idx < 32" by (simp add: word_less_nat_alt)
  from lo have b8: "8 \<le> unat begin_idx" by (simp add: word_le_nat_alt)
  define f where "f = (\<lambda>b. to_uchar (to_int b AND
      NOT (push_bit (unat begin_idx) (NOT (push_bit (unat end_idx - unat begin_idx) (NOT 0))))))"
  have "f b = b" for b
  proof (rule byte_eq_bits)
    fix t :: nat assume "t < 8"
    with b8 show "bit (f b) t = bit b t" unfolding f_def clear_field by simp
  qed
  then have "bs[unat begin_idx div 8 := f (bs ! (unat begin_idx div 8))] = bs" by simp
  with rclear_same_byte [OF d sm le p b32] d show ?thesis by (simp add: f_def)
qed

text \<open>The statement at \<open>[9, 11)\<close> of \<open>demo_set\<close>.\<close>

theorem bitset_rclear_same_byte_high_witness:
  "wf_bitset demo_set demo_bytes \<and> (9 :: size_t) \<le> 11 \<and> (11 :: size_t) < capacity demo_set
   \<and> bitset_byte_at 9 = bitset_byte_at 11 \<and> (8 :: size_t) \<le> 9 \<and> (9 :: size_t) < 32
   \<and> bitset_rclear demo_set 9 11 = Some (demo_set, 11 - 9)"
proof -
  have wf: "wf_bitset demo_set demo_bytes"
    by (simp add: wf_bitset_def demo_set_def demo_bytes_def)
  have le: "(9 :: size_t) \<le> 11" by simp
  have cap: "(11 :: size_t) < capacity demo_set" by (simp add: demo_set_def)
  have same: "bitset_byte_at 9 = bitset_byte_at 11" by (simp add: bitset_byte_at_def)
  have lo: "(8 :: size_t) \<le> 9" by simp
  have hi: "(9 :: size_t) < 32" by simp
  from bitset_rclear_same_byte_high [OF wf le cap same lo hi] wf le cap same lo hi
  show ?thesis by blast
qed

end
